theory Spec2Isabelle
  imports Complex_Main "HOL-Library.Word"
begin

section \<open>The lock-in demodulation core of lockin2.cpp\<close>

text \<open>
  The class \<open>Lockin2\<close> is embedded as a record of its fields and one HOL function per
  member function, each taking the object and returning it updated. A \<open>qreal\<close> is a
  \<^typ>\<open>real\<close>: sums, products, \<open>sin\<close> and \<open>cos\<close> are the exact ones. Two places
  are written out as the doubles have them: the division by the count of averaged
  samples, whose result has a type of its own, and the products that \<open>start\<close> converts
  to counts, which are rounded first. Where a property below compares a stored product
  with the constant 0.5, it takes the sine and the cosine as given values, so that it
  does not rest on the exact sine being the library's. A \<open>quint32\<close> is a \<^typ>\<open>32 word\<close>, a
  \<open>QList\<close> is a list, and the fields lose the leading underscore of their C++ names.

  A cycle takes the burst as the list of the (left, right) pairs that the buffer holds:
  the bytes, their order and the stream that decodes them are Qt's. The mutex of the
  snapshot appears as the outcome of \<open>tryLock\<close>, an argument of the cycle. The two
  read accessors, \<open>autoPhase\<close> and \<open>vumeterData\<close>, change nothing and are left out.
\<close>

type_synonym quint32 = "32 word"
type_synonym quint64 = "64 word"
type_synonym qpair = "real \<times> real"

text \<open>What \<open>QList::first\<close> and \<open>QList::removeFirst\<close> do on an empty list: they fail.\<close>

datatype error = EmptyList

subsection \<open>The Reference Analyzer: \<open>Lockin2::parseChopperSignal\<close>\<close>

text \<open>\<open>M_2_PI\<close> of \<open>cmath\<close> is the constant \<open>2/pi\<close>.\<close>

definition M_2_PI :: real where
  "M_2_PI = 2 / pi"

text \<open>The pair \<open>(2.0, 2.0)\<close> that tells the caller to ignore the sample.\<close>

definition ignoreValue :: qpair where
  "ignoreValue = (2, 2)"

text \<open>The inner loop of a closed period: \<open>periodSize\<close> pairs, for \<open>i\<close> from \<open>0\<close>.\<close>

definition sinCos :: "real \<Rightarrow> nat \<Rightarrow> nat \<Rightarrow> qpair" where
  "sinCos phi periodSize i =
     (let angle = M_2_PI * real i / real periodSize + phi in (sin angle, cos angle))"

text \<open>
  The variables of the scanning loop: \<open>ignore\<close>, \<open>wasBiggerThanAvg\<close>, \<open>periodSize\<close>
  and \<open>out\<close>.
\<close>

type_synonym parse_state = "bool \<times> bool \<times> nat \<times> qpair list"

text \<open>One pass through the body of the loop over \<open>signal\<close>, at the sample \<open>v\<close>.\<close>

definition parseStep :: "quint32 \<Rightarrow> real \<Rightarrow> parse_state \<Rightarrow> quint32 \<Rightarrow> parse_state" where
  "parseStep avg phi st v =
     (case st of (ignore, wasBiggerThanAvg, periodSize0, out) \<Rightarrow>
        let isBiggerThanAvg = (v > avg);
            periodSize = periodSize0 + 1
        in if isBiggerThanAvg \<and> \<not> wasBiggerThanAvg then
             (if ignore then
                (False, isBiggerThanAvg, 0, out @ replicate periodSize ignoreValue)
              else
                (ignore, isBiggerThanAvg, 0,
                 out @ map (sinCos phi periodSize) [0..<periodSize]))
           else (ignore, isBiggerThanAvg, periodSize, out))"

fun parseLoop :: "quint32 \<Rightarrow> real \<Rightarrow> quint32 list \<Rightarrow> parse_state \<Rightarrow> parse_state" where
  "parseLoop avg phi [] st = st"
| "parseLoop avg phi (v # vs) st = parseLoop avg phi vs (parseStep avg phi st v)"

definition parseChopperSignal :: "quint32 list \<Rightarrow> quint32 \<Rightarrow> real \<Rightarrow> error + qpair list" where
  "parseChopperSignal signal avg phi =
     (case signal of
        [] \<Rightarrow> Inl EmptyList
      | v0 # _ \<Rightarrow>
          (case parseLoop avg phi signal (True, v0 > avg, 0, []) of
             (ignore, wasBiggerThanAvg, periodSize, out) \<Rightarrow>
               Inr (out @ replicate (length signal - length out) ignoreValue)))"

text \<open>
  A rising edge of the reference, as the loop detects it: the sample at \<open>i\<close> is above
  the average and the one before it is not. The first sample is compared with itself,
  so it is never an edge.
\<close>

definition risingEdge :: "quint32 list \<Rightarrow> quint32 \<Rightarrow> nat \<Rightarrow> bool" where
  "risingEdge signal avg i \<longleftrightarrow>
     0 < i \<and> i < length signal \<and> signal ! i > avg \<and> \<not> signal ! (i - 1) > avg"

subsection \<open>The audio format and the session object\<close>

text \<open>
  \<open>QAudioFormat\<close>, \<open>QAudioDeviceInfo\<close> and \<open>QAudioInput\<close> belong to Qt. The model
  keeps the attributes that \<open>lockin2.cpp\<close> reads or sets; what the device accepts and
  whether Qt holds a format valid are attributes of the values passed in.
\<close>

datatype SampleType = Unknown | SignedInt | UnSignedInt | Float

record QAudioFormat =
  codec :: string
  channelCount :: int
  sampleType :: SampleType
  sampleSize :: int
  sampleRate :: int
  isValid :: bool

record QAudioDeviceInfo =
  deviceSupports :: "QAudioFormat \<Rightarrow> bool"

record QAudioInput =
  notifyInterval :: int
  inputFormat :: QAudioFormat

text \<open>The conversion of a \<open>qreal\<close> to an \<open>int\<close>: C++ drops the fraction.\<close>

definition toInt :: "real \<Rightarrow> int" where
  "toInt r = (if 0 \<le> r then \<lfloor>r\<rfloor> else \<lceil>r\<rceil>)"

text \<open>
  The product of an \<open>int\<close> and a \<open>qreal\<close> is a \<open>double\<close>: the exact product rounded
  to 53 significant bits, to the nearest and on a tie to the even one. \<open>start\<close> converts
  such products to counts, and there the rounding can decide the count (ten samples a
  second for the double nearest to 0.3 seconds are 3 samples, where the exact product is
  just below 3), so it is written out. Magnitudes are those of the normal range of a
  double, between \<open>2^-1022\<close> and \<open>2^1024\<close>, where counts of samples lie.
\<close>

definition roundEven :: "real \<Rightarrow> int" where
  "roundEven r =
     (let f = \<lfloor>r\<rfloor>
      in if r - of_int f < 1 / 2 then f
         else if 1 / 2 < r - of_int f then f + 1
         else if even f then f else f + 1)"

definition toDouble :: "real \<Rightarrow> real" where
  "toDouble x =
     (if x = 0 then 0
      else let e = \<lfloor>log 2 \<bar>x\<bar>\<rfloor>; ulp = 2 powr (of_int e - 52)
           in ulp * of_int (roundEven (x / ulp)))"

text \<open>
  The result of a \<open>qreal\<close> division \<open>a / b\<close> with \<open>b\<close> a count that is never negative:
  the quotient when \<open>b\<close> is not zero, and otherwise what IEEE 754 gives, \<open>0/0\<close> being
  not a number.
\<close>

datatype quotient = Num real | NaN | PlusInf | MinusInf

definition qdiv :: "real \<Rightarrow> real \<Rightarrow> quotient" where
  "qdiv a b =
     (if b \<noteq> 0 then Num (a / b)
      else if a = 0 then NaN
      else if 0 < a then PlusInf else MinusInf)"

text \<open>
  Modelled from the spec: the declaration of \<open>_sampleIntegration\<close> and
  \<open>_sampleVumeter\<close> (lockin2.hpp) is not among the sources. The Session Controller
  derives both from the sample rate, "both rounded to sample counts"; the assignment of a
  \<open>qreal\<close> to a count converts it as C++ does, dropping the fraction.
\<close>

definition sampleCount :: "real \<Rightarrow> int" where
  "sampleCount r = toInt r"

text \<open>
  The fields of \<open>Lockin2\<close>. \<open>audioInput\<close> is the pointer \<open>_audioInput\<close>, \<open>None\<close>
  for the null pointer. \<open>debug\<close> collects what the object writes to \<open>qDebug()\<close>.
\<close>

record Lockin2 =
  audioInput :: "QAudioInput option"
  outputPeriod :: real
  vumeterTime :: real
  integrationTime :: real
  phase :: real
  sampleIntegration :: int
  sampleVumeter :: int
  timeValue :: real
  xValue :: quotient
  yValue :: quotient
  data :: "qpair list"
  vumeterData :: "qpair list"
  debug :: "string list"

definition qDebug :: "string \<Rightarrow> Lockin2 \<Rightarrow> Lockin2" where
  "qDebug msg s = s\<lparr>debug := debug s @ [msg]\<rparr>"

subsection \<open>The Session Controller\<close>

definition isFormatSupported :: "QAudioFormat \<Rightarrow> bool" where
  "isFormatSupported format =
     (if codec format \<noteq> ''audio/pcm'' then False
      else if channelCount format \<noteq> 2 then False
      else if sampleType format \<noteq> UnSignedInt then False
      else if sampleSize format \<noteq> 32 then False
      else True)"

definition start :: "QAudioDeviceInfo \<Rightarrow> QAudioFormat \<Rightarrow> Lockin2 \<Rightarrow> bool \<times> Lockin2" where
  "start audioDevice format s =
     (if audioInput s \<noteq> None then
        (False, qDebug ''start : lockin is already running, please stop is before start'' s)
      else if \<not> isValid format then
        (False, qDebug ''start : format not valid'' s)
      else if \<not> isFormatSupported format then
        (False, qDebug ''start : format not supported for lockin2'' s)
      else if deviceSupports audioDevice format then
        (True,
         s\<lparr>audioInput :=
              Some \<lparr>notifyInterval = toInt (toDouble (outputPeriod s * 1000)),
                    inputFormat = format\<rparr>,
            timeValue := - (integrationTime s / 2),
            sampleIntegration :=
              sampleCount (toDouble (real_of_int (sampleRate format) * integrationTime s)),
            sampleVumeter :=
              sampleCount (toDouble (real_of_int (sampleRate format) * vumeterTime s))\<rparr>)
      else
        (False, qDebug ''start : format not supported, can't start'' s))"

definition setOutputPeriod :: "real \<Rightarrow> Lockin2 \<Rightarrow> Lockin2" where
  "setOutputPeriod v s =
     (if audioInput s = None then s\<lparr>outputPeriod := v\<rparr>
      else qDebug ''setOutputPeriod : lockin is running'' s)"

definition setIntegrationTime :: "real \<Rightarrow> Lockin2 \<Rightarrow> Lockin2" where
  "setIntegrationTime v s =
     (if audioInput s = None then s\<lparr>integrationTime := v\<rparr>
      else qDebug ''setIntegrationTime : lockin is running'' s)"

definition setVumeterTime :: "real \<Rightarrow> Lockin2 \<Rightarrow> Lockin2" where
  "setVumeterTime v s =
     (if audioInput s = None then s\<lparr>vumeterTime := v\<rparr>
      else qDebug ''setVumeterTime : lockin is running'' s)"

definition setPhase :: "real \<Rightarrow> Lockin2 \<Rightarrow> Lockin2" where
  "setPhase v s = s\<lparr>phase := v\<rparr>"

definition stop :: "Lockin2 \<Rightarrow> Lockin2" where
  "stop s =
     (if audioInput s \<noteq> None then s\<lparr>audioInput := None\<rparr>
      else qDebug ''stop : lockin is not running'' s)"

subsection \<open>One processing cycle: \<open>Lockin2::interpretInput\<close>\<close>

text \<open>
  The Demodulator, the body of the loop over \<open>leftSignal\<close>: the product with the
  sine and the cosine, or \<open>0.5\<close> twice for a sample the analyzer told to ignore.
\<close>

definition demodulate :: "real \<times> qpair \<Rightarrow> qpair" where
  "demodulate p =
     (case p of (left, sc) \<Rightarrow>
        if fst sc \<noteq> 2 then (fst sc * left, snd sc * left) else (1 / 2, 1 / 2))"

text \<open>
  The loop that rebuilds \<open>_vumeterData\<close>, walking the burst from its last sample:
  the argument is the burst reversed, each measurement with its pair.
\<close>

fun vumeterLoop :: "int \<Rightarrow> (real \<times> qpair) list \<Rightarrow> qpair list \<Rightarrow> qpair list" where
  "vumeterLoop cap [] acc = acc"
| "vumeterLoop cap ((left, sc) # rest) acc =
     (if int (length acc) \<ge> cap then acc
      else if fst sc \<noteq> 2 then vumeterLoop cap rest ((left, fst sc) # acc)
      else vumeterLoop cap rest acc)"

text \<open>\<open>while (_data.size() > _sampleIntegration) _data.removeFirst();\<close>\<close>

fun removeExcess :: "int \<Rightarrow> qpair list \<Rightarrow> error + qpair list" where
  "removeExcess cap [] = (if 0 > cap then Inl EmptyList else Inr [])"
| "removeExcess cap (d # ds) =
     (if int (length (d # ds)) > cap then removeExcess cap ds else Inr (d # ds))"

text \<open>The averaging loop, on the accumulators \<open>x\<close>, \<open>y\<close> and \<open>dataCount\<close>.\<close>

fun sumData :: "qpair list \<Rightarrow> real \<times> real \<times> real \<Rightarrow> real \<times> real \<times> real" where
  "sumData [] acc = acc"
| "sumData (d # ds) (x, y, dataCount) =
     (if fst d \<noteq> 1 / 2 \<and> snd d \<noteq> 1 / 2 then sumData ds (x + fst d, y + snd d, dataCount + 1)
      else sumData ds (x, y, dataCount))"

text \<open>The signal \<open>newValues(time, x, y)\<close>.\<close>

type_synonym newValues = "real \<times> quotient \<times> quotient"

text \<open>The average of the reference channel, summed in 64 bits and passed on as 32.\<close>

definition avgRight :: "quint32 list \<Rightarrow> quint32" where
  "avgRight chopperSignal =
     ucast ((foldl (\<lambda>a r. a + ucast r) (0 :: quint64) chopperSignal)
            div word_of_nat (length chopperSignal))"

text \<open>
  A cycle reads the burst that the buffer holds, as pairs (left, right), and \<open>lockFree\<close>
  says whether \<open>tryLock\<close> gets the mutex of the snapshot. It returns the object and the
  signal it emitted, if any.
\<close>

definition interpretInput ::
  "bool \<Rightarrow> (quint32 \<times> quint32) list \<Rightarrow> Lockin2 \<Rightarrow> error + Lockin2 \<times> newValues option" where
  "interpretInput lockFree burst s0 =
     (let s1 = s0\<lparr>timeValue := timeValue s0 + outputPeriod s0\<rparr>;
          leftSignal = map (\<lambda>p. real (unat (fst p))) burst;
          chopperSignal = map snd burst
      in if length burst = 0 then Inr (qDebug ''interpretInput : nothing new...'' s1, None)
         else
           (case parseChopperSignal chopperSignal (avgRight chopperSignal) (phase s1) of
              Inl e \<Rightarrow> Inl e
            | Inr chopperSinCos \<Rightarrow>
                let s2 = s1\<lparr>data := data s1 @ map demodulate (zip leftSignal chopperSinCos)\<rparr>;
                    s3 = (if lockFree then
                            s2\<lparr>vumeterData :=
                                 vumeterLoop (sampleVumeter s2)
                                   (rev (zip leftSignal chopperSinCos)) []\<rparr>
                          else qDebug ''interpretInput : the view Mutex is locked'' s2)
                in if int (length (data s3)) < sampleIntegration s3 then Inr (s3, None)
                   else
                     (case removeExcess (sampleIntegration s3) (data s3) of
                        Inl e \<Rightarrow> Inl e
                      | Inr ds \<Rightarrow>
                          (case sumData ds (0, 0, 0) of
                             (x, y, dataCount) \<Rightarrow>
                               Inr (s3\<lparr>data := ds,
                                       xValue := qdiv x dataCount,
                                       yValue := qdiv y dataCount\<rparr>,
                                    Some (timeValue s3, qdiv x dataCount, qdiv y dataCount))))))"

text \<open>
  A session after \<open>start\<close>: one cycle for each notification, with the signals emitted,
  cycle by cycle.
\<close>

fun cycles ::
  "(bool \<times> (quint32 \<times> quint32) list) list \<Rightarrow> Lockin2 \<Rightarrow> error + Lockin2 \<times> newValues option list" where
  "cycles [] s = Inr (s, [])"
| "cycles ((lockFree, burst) # rest) s =
     (case interpretInput lockFree burst s of
        Inl e \<Rightarrow> Inl e
      | Inr (s', ev) \<Rightarrow>
          (case cycles rest s' of
             Inl e \<Rightarrow> Inl e
           | Inr (s'', evs) \<Rightarrow> Inr (s'', ev # evs)))"

subsection \<open>The constructor and the values used as examples\<close>

text \<open>
  The constructor: the null pointer, then the four setters. The other numeric fields are
  left as the memory \<open>mem\<close> has them; the two lists start empty.
\<close>

definition Lockin2_new :: "Lockin2 \<Rightarrow> Lockin2" where
  "Lockin2_new mem =
     setPhase 0 (setIntegrationTime 3 (setVumeterTime (2 / 100) (setOutputPeriod (1 / 2)
       (mem\<lparr>audioInput := None, data := [], vumeterData := [], debug := []\<rparr>))))"

text \<open>
  Values for the examples below: a memory of zeros, the one format that
  \<open>isFormatSupported\<close> accepts at a given sample rate, a device that supports every
  format, an object configured before \<open>start\<close>, and the session that \<open>start\<close> makes
  of it.
\<close>

definition blankMemory :: Lockin2 where
  "blankMemory =
     \<lparr>audioInput = None, outputPeriod = 0, vumeterTime = 0, integrationTime = 0, phase = 0,
      sampleIntegration = 0, sampleVumeter = 0, timeValue = 0, xValue = Num 0, yValue = Num 0,
      data = [], vumeterData = [], debug = []\<rparr>"

definition pcm32 :: "int \<Rightarrow> QAudioFormat" where
  "pcm32 rate =
     \<lparr>codec = ''audio/pcm'', channelCount = 2, sampleType = UnSignedInt, sampleSize = 32,
      sampleRate = rate, isValid = True\<rparr>"

definition anyDevice :: QAudioDeviceInfo where
  "anyDevice = \<lparr>deviceSupports = (\<lambda>format. True)\<rparr>"

definition prepared :: "real \<Rightarrow> real \<Rightarrow> Lockin2" where
  "prepared integration phi =
     setPhase phi (setIntegrationTime integration (Lockin2_new blankMemory))"

definition session :: "int \<Rightarrow> real \<Rightarrow> real \<Rightarrow> Lockin2" where
  "session rate integration phi =
     snd (start anyDevice (pcm32 rate)
            (prepared integration phi))"

text \<open>
  A session at 4 Hz that has filled its window of four samples, and the same object
  stopped, set to half a second of integration and started again.
\<close>

definition filled :: Lockin2 where
  "filled =
     fst (projr (cycles [(True, [(1, 7), (1, 7)]), (True, [(1, 7), (1, 7)])] (session 4 1 0)))"

definition restarted :: Lockin2 where
  "restarted = snd (start anyDevice (pcm32 4) (setIntegrationTime (1 / 2) (stop filled)))"

subsection \<open>The specification's own words\<close>

text \<open>
  The pair that the description of the analyzer gives at index \<open>i\<close> of a closed run of
  length \<open>L\<close>: the angle is \<open>2 pi i / L + phase\<close>.
\<close>

definition claimedSinCos :: "real \<Rightarrow> nat \<Rightarrow> nat \<Rightarrow> qpair" where
  "claimedSinCos phi L i =
     (let angle = 2 * pi * real i / real L + phi in (sin angle, cos angle))"

text \<open>
  The mean of a window as the description of the Integration Window gives it, on
  demodulated samples \<open>(x, y, valid)\<close>: over the valid ones, the sum of the \<open>x\<close> and
  the sum of the \<open>y\<close>, each divided by the number of valid samples.
\<close>

definition validMean :: "(real \<times> real \<times> bool) list \<Rightarrow> quotient \<times> quotient" where
  "validMean w =
     (let valid = filter (\<lambda>(x, y, v). v) w;
          n = real (length valid)
      in (qdiv (sum_list (map (\<lambda>(x, y, v). x) valid)) n,
          qdiv (sum_list (map (\<lambda>(x, y, v). y) valid)) n))"

text \<open>
  The snapshot as the description of the Monitor Snapshot gives it: the pairs
  (measurement, sine) of the samples that are not marked, in the order of the burst, and
  of those the last \<open>capacity\<close>.
\<close>

definition mostRecentValid :: "int \<Rightarrow> real list \<Rightarrow> qpair list \<Rightarrow> qpair list" where
  "mostRecentValid capacity leftSignal chopperSinCos =
     (let valid = map (\<lambda>(left, sc). (left, fst sc))
                    (filter (\<lambda>(left, sc). sc \<noteq> ignoreValue) (zip leftSignal chopperSinCos))
      in drop (length valid - nat capacity) valid)"

subsection \<open>What the loops maintain\<close>

text \<open>
  After \<open>k\<close> samples of the scanning loop: \<open>out\<close> and the open run together cover
  the \<open>k\<close> samples; \<open>wasBiggerThanAvg\<close> is the comparison of the sample before;
  \<open>ignore\<close> holds as long as no edge was seen; every entry of \<open>out\<close> with no edge
  before it is the ignore pair; \<open>out\<close> ends at the last edge seen.
\<close>

definition parseInv :: "quint32 list \<Rightarrow> quint32 \<Rightarrow> nat \<Rightarrow> parse_state \<Rightarrow> bool" where
  "parseInv signal avg k st =
     (case st of (ignore, wasBiggerThanAvg, periodSize, out) \<Rightarrow>
        length out + periodSize = k \<and>
        wasBiggerThanAvg = (signal ! (k - 1) > avg) \<and>
        (ignore \<longleftrightarrow> (\<forall>i<k. \<not> risingEdge signal avg i)) \<and>
        (\<forall>j<length out. (\<forall>i<j. \<not> risingEdge signal avg i) \<longrightarrow> out ! j = ignoreValue) \<and>
        (\<forall>i. length out \<le> i \<and> i < k \<longrightarrow> \<not> risingEdge signal avg i) \<and>
        (0 < length out \<longrightarrow> risingEdge signal avg (length out - 1)))"

text \<open>
  Every run between two consecutive edges seen so far carries the pairs of the inner
  loop, for the length of that run.
\<close>

definition runsSynthesized :: "quint32 list \<Rightarrow> quint32 \<Rightarrow> real \<Rightarrow> nat \<Rightarrow> qpair list \<Rightarrow> bool" where
  "runsSynthesized signal avg phi k out \<longleftrightarrow>
     (\<forall>e1 e2 i. risingEdge signal avg e1 \<and> risingEdge signal avg e2 \<and> e1 < e2 \<and> e2 < k \<and>
        (\<forall>m. e1 < m \<and> m < e2 \<longrightarrow> \<not> risingEdge signal avg m) \<and> i < e2 - e1 \<longrightarrow>
        e1 + 1 + i < length out \<and> out ! (e1 + 1 + i) = sinCos phi (e2 - e1) i)"

text \<open>
  The part of \<open>interpretInput\<close> that follows the analyzer (from the loop of the
  Demodulator to the signal), as a function of the measurements paired with the
  analyzer's output and of the object with its time advanced; \<open>interpretInput\<close> is
  shown below to be this function on every burst that is not empty.
\<close>

definition integrate ::
  "bool \<Rightarrow> (real \<times> qpair) list \<Rightarrow> Lockin2 \<Rightarrow> error + Lockin2 \<times> newValues option" where
  "integrate lockFree zs s1 =
     (let s2 = s1\<lparr>data := data s1 @ map demodulate zs\<rparr>;
          s3 = (if lockFree then s2\<lparr>vumeterData := vumeterLoop (sampleVumeter s2) (rev zs) []\<rparr>
                else qDebug ''interpretInput : the view Mutex is locked'' s2)
      in if int (length (data s3)) < sampleIntegration s3 then Inr (s3, None)
         else
           (case removeExcess (sampleIntegration s3) (data s3) of
              Inl e \<Rightarrow> Inl e
            | Inr ds \<Rightarrow>
                (case sumData ds (0, 0, 0) of
                   (x, y, dataCount) \<Rightarrow>
                     Inr (s3\<lparr>data := ds, xValue := qdiv x dataCount, yValue := qdiv y dataCount\<rparr>,
                          Some (timeValue s3, qdiv x dataCount, qdiv y dataCount)))))"

section \<open>Properties\<close>

subsection \<open>Rounding to a double\<close>

text \<open>
  Within a binade the rounding is to multiples of its unit; the whole numbers used below
  are doubles, and ten times the double nearest to 0.3 rounds to 3.
\<close>

lemma toDouble_binade:
  assumes "2 ^ k \<le> \<bar>x\<bar>" and "\<bar>x\<bar> < 2 ^ Suc k"
  shows "toDouble x = 2 powr (real k - 52) * of_int (roundEven (x / 2 powr (real k - 52)))"
proof -
  have pos: "0 < \<bar>x\<bar>" by (rule less_le_trans [OF _ assms(1)]) simp
  then have x0: "x \<noteq> 0" by auto
  have "\<lfloor>log 2 \<bar>x\<bar>\<rfloor> = int k"
  proof (rule floor_unique)
    have e0: "log 2 ((2::real) ^ k) = real k" by (rule log_pow_cancel) simp_all
    have e1: "log 2 ((2::real) ^ Suc k) = real (Suc k)" by (rule log_pow_cancel) simp_all
    have "log 2 (2 ^ k) \<le> log 2 \<bar>x\<bar>"
      using assms(1) pos by (subst log_le_cancel_iff) simp_all
    with e0 show "of_int (int k) \<le> log 2 \<bar>x\<bar>" by simp
    have "log 2 \<bar>x\<bar> < log 2 (2 ^ Suc k)"
      using assms(2) pos by (subst log_less_cancel_iff) simp_all
    with e1 show "log 2 \<bar>x\<bar> < of_int (int k) + 1" by simp
  qed
  then show ?thesis using x0 by (simp add: toDouble_def Let_def)
qed

lemma roundEven_of_int [simp]: "roundEven (of_int n) = n"
  by (simp add: roundEven_def)

lemma toDouble_1 [simp]: "toDouble 1 = 1"
  using toDouble_binade [of 0 1] by (simp add: powr_minus roundEven_def)

lemma toDouble_2 [simp]: "toDouble 2 = 2"
  using toDouble_binade [of 1 2] by (simp add: powr_minus roundEven_def)

lemma toDouble_4 [simp]: "toDouble 4 = 4"
  using toDouble_binade [of 2 4] by (simp add: powr_minus roundEven_def)

lemma toDouble_50 [simp]: "toDouble 50 = 50"
  using toDouble_binade [of 5 50] by (simp add: powr_minus roundEven_def)

lemma toDouble_three_tenths:
  "toDouble (10 * (5404319552844595 / 18014398509481984)) = 3"
  using toDouble_binade [of 1 "10 * (5404319552844595 / 18014398509481984)"]
  by (simp add: powr_minus roundEven_def)

subsection \<open>The Reference Analyzer\<close>

lemma parseLoop_append:
  "parseLoop avg phi (xs @ ys) st = parseLoop avg phi ys (parseLoop avg phi xs st)"
  by (induction xs arbitrary: st) simp_all

lemma parseInv_0: "parseInv signal avg 0 (True, signal ! 0 > avg, 0, [])"
  by (simp add: parseInv_def)

lemma edge_iff:
  "k < length signal \<Longrightarrow>
   risingEdge signal avg k \<longleftrightarrow> (signal ! k > avg \<and> \<not> signal ! (k - 1) > avg)"
  by (cases k) (auto simp: risingEdge_def)

lemma parseInv_step:
  assumes inv: "parseInv signal avg k st" and k: "k < length signal"
  shows "parseInv signal avg (Suc k) (parseStep avg phi st (signal ! k))"
proof -
  obtain ig was p out where st: "st = (ig, was, p, out)" by (cases st) auto
  from inv st have len: "length out + p = k"
    and was: "was = (signal ! (k - 1) > avg)"
    and ig: "ig \<longleftrightarrow> (\<forall>i<k. \<not> risingEdge signal avg i)"
    and pre: "\<forall>j<length out. (\<forall>i<j. \<not> risingEdge signal avg i) \<longrightarrow> out ! j = ignoreValue"
    and gap: "\<forall>i. length out \<le> i \<and> i < k \<longrightarrow> \<not> risingEdge signal avg i"
    and lastE: "0 < length out \<longrightarrow> risingEdge signal avg (length out - 1)"
    by (simp_all add: parseInv_def)
  have edge: "risingEdge signal avg k \<longleftrightarrow> (signal ! k > avg \<and> \<not> was)"
    using edge_iff [OF k] was by simp
  show ?thesis
  proof (cases "risingEdge signal avg k")
    case False
    then have step: "parseStep avg phi st (signal ! k) = (ig, signal ! k > avg, Suc p, out)"
      using edge st by (auto simp: parseStep_def Let_def)
    have "\<forall>i<Suc k. \<not> risingEdge signal avg i \<Longrightarrow> ig" using ig by simp
    moreover have "ig \<Longrightarrow> \<forall>i<Suc k. \<not> risingEdge signal avg i"
      using ig False by (auto simp: less_Suc_eq)
    moreover have "\<forall>i. length out \<le> i \<and> i < Suc k \<longrightarrow> \<not> risingEdge signal avg i"
      using gap False by (auto simp: less_Suc_eq)
    ultimately show ?thesis
      unfolding step parseInv_def using len pre lastE by auto
  next
    case True
    show ?thesis
    proof (cases ig)
      case igT: True
      then have step: "parseStep avg phi st (signal ! k) =
          (False, True, 0, out @ replicate (Suc p) ignoreValue)"
        using edge True st by (auto simp: parseStep_def Let_def)
      have "\<forall>j<length (out @ replicate (Suc p) ignoreValue).
              (\<forall>i<j. \<not> risingEdge signal avg i) \<longrightarrow>
              (out @ replicate (Suc p) ignoreValue) ! j = ignoreValue"
      proof (intro allI impI)
        fix j
        assume j: "j < length (out @ replicate (Suc p) ignoreValue)"
          and ne: "\<forall>i<j. \<not> risingEdge signal avg i"
        show "(out @ replicate (Suc p) ignoreValue) ! j = ignoreValue"
        proof (cases "j < length out")
          case True
          with pre ne show ?thesis by (simp add: nth_append)
        next
          case False
          with j have "j - length out < Suc p" by simp
          then have "replicate (Suc p) ignoreValue ! (j - length out) = ignoreValue"
            by (rule nth_replicate)
          with False show ?thesis by (simp add: nth_append del: replicate_Suc)
        qed
      qed
      moreover have "\<not> (\<forall>i<Suc k. \<not> risingEdge signal avg i)" using True by auto
      moreover have "signal ! k > avg" using True edge by simp
      ultimately show ?thesis
        unfolding step parseInv_def using len True by auto
    next
      case igF: False
      then have step: "parseStep avg phi st (signal ! k) =
          (False, True, 0, out @ map (sinCos phi (Suc p)) [0..<Suc p])"
        using edge True st by (auto simp: parseStep_def Let_def)
      from igF ig obtain i0 where i0: "i0 < k" "risingEdge signal avg i0" by auto
      with gap have i0out: "i0 < length out" by (meson not_le)
      have "\<forall>j<length (out @ map (sinCos phi (Suc p)) [0..<Suc p]).
              (\<forall>i<j. \<not> risingEdge signal avg i) \<longrightarrow>
              (out @ map (sinCos phi (Suc p)) [0..<Suc p]) ! j = ignoreValue"
      proof (intro allI impI)
        fix j
        assume j: "j < length (out @ map (sinCos phi (Suc p)) [0..<Suc p])"
          and ne: "\<forall>i<j. \<not> risingEdge signal avg i"
        from ne i0 have "j \<le> i0" by (meson not_le)
        with i0out have "j < length out" by simp
        with pre ne show "(out @ map (sinCos phi (Suc p)) [0..<Suc p]) ! j = ignoreValue"
          by (simp add: nth_append)
      qed
      moreover have "\<not> (\<forall>i<Suc k. \<not> risingEdge signal avg i)" using True by auto
      moreover have "signal ! k > avg" using True edge by simp
      ultimately show ?thesis
        unfolding step parseInv_def using len True by auto
    qed
  qed
qed

lemma parseInv_take:
  "k \<le> length signal \<Longrightarrow>
   parseInv signal avg k (parseLoop avg phi (take k signal) (True, signal ! 0 > avg, 0, []))"
proof (induction k)
  case 0
  show ?case by (simp add: parseInv_0)
next
  case (Suc k)
  then have k: "k < length signal" by simp
  have "take (Suc k) signal = take k signal @ [signal ! k]"
    using k by (simp add: take_Suc_conv_app_nth)
  then show ?case
    using Suc.IH k parseInv_step [OF _ k] by (simp add: parseLoop_append)
qed

lemma parseChopperSignal_Inr:
  assumes "signal \<noteq> []"
  shows "\<exists>out. parseChopperSignal signal avg phi = Inr out \<and> length out = length signal"
proof -
  obtain ig was p out0 where
    loop: "parseLoop avg phi signal (True, signal ! 0 > avg, 0, []) = (ig, was, p, out0)"
    by (cases "parseLoop avg phi signal (True, signal ! 0 > avg, 0, [])") auto
  have "parseInv signal avg (length signal) (ig, was, p, out0)"
    using parseInv_take [of "length signal" signal avg phi] loop by simp
  then have "length out0 + p = length signal" by (simp add: parseInv_def)
  then show ?thesis
    using assms loop by (cases signal) (simp_all add: parseChopperSignal_def)
qed

text \<open>
  C7. For a burst that is not empty, the analyzer returns a list as long as the burst.
  Every sample with no rising edge before it (the samples up to the first detected edge,
  the edge's own sample among them) is the ignore pair, and so is every sample with no
  rising edge at or after it (the samples after the last detected edge). A burst without
  a rising edge gives the ignore pair at every position.
\<close>

theorem parseChopperSignal_length_and_borders:
  assumes ne: "signal \<noteq> []"
  shows "\<exists>out. parseChopperSignal signal avg phi = Inr out \<and>
           length out = length signal \<and>
           (\<forall>j<length signal. (\<forall>i<j. \<not> risingEdge signal avg i) \<longrightarrow> out ! j = ignoreValue) \<and>
           (\<forall>j<length signal. (\<forall>i\<ge>j. \<not> risingEdge signal avg i) \<longrightarrow> out ! j = ignoreValue) \<and>
           ((\<forall>i. \<not> risingEdge signal avg i) \<longrightarrow> out = replicate (length signal) ignoreValue)"
proof -
  let ?n = "length signal"
  obtain ig was p out0 where
    loop: "parseLoop avg phi signal (True, signal ! 0 > avg, 0, []) = (ig, was, p, out0)"
    by (cases "parseLoop avg phi signal (True, signal ! 0 > avg, 0, [])") auto
  have "parseInv signal avg ?n (ig, was, p, out0)"
    using parseInv_take [of ?n signal avg phi] loop by simp
  then have len: "length out0 + p = ?n"
    and ig: "ig \<longleftrightarrow> (\<forall>i<?n. \<not> risingEdge signal avg i)"
    and pre: "\<forall>j<length out0. (\<forall>i<j. \<not> risingEdge signal avg i) \<longrightarrow> out0 ! j = ignoreValue"
    and lastE: "0 < length out0 \<longrightarrow> risingEdge signal avg (length out0 - 1)"
    by (simp_all add: parseInv_def)
  let ?out = "out0 @ replicate (?n - length out0) ignoreValue"
  have res: "parseChopperSignal signal avg phi = Inr ?out"
    using ne loop by (cases signal) (simp_all add: parseChopperSignal_def)
  have l: "length ?out = ?n" using len by simp
  have pad: "?out ! j = ignoreValue" if "length out0 \<le> j" "j < ?n" for j
  proof -
    from that have "j - length out0 < ?n - length out0" by simp
    then have "replicate (?n - length out0) ignoreValue ! (j - length out0) = ignoreValue"
      by (rule nth_replicate)
    with that show ?thesis by (simp add: nth_append)
  qed
  have a: "\<forall>j<?n. (\<forall>i<j. \<not> risingEdge signal avg i) \<longrightarrow> ?out ! j = ignoreValue"
  proof (intro allI impI)
    fix j assume j: "j < ?n" and no: "\<forall>i<j. \<not> risingEdge signal avg i"
    show "?out ! j = ignoreValue"
    proof (cases "j < length out0")
      case True
      with pre no show ?thesis by (simp add: nth_append)
    next
      case False
      with j pad show ?thesis by simp
    qed
  qed
  have b: "\<forall>j<?n. (\<forall>i\<ge>j. \<not> risingEdge signal avg i) \<longrightarrow> ?out ! j = ignoreValue"
  proof (intro allI impI)
    fix j assume j: "j < ?n" and no: "\<forall>i\<ge>j. \<not> risingEdge signal avg i"
    have "length out0 \<le> j"
    proof (rule ccontr)
      assume "\<not> length out0 \<le> j"
      then have "j < length out0" by simp
      then have "0 < length out0" "j \<le> length out0 - 1" by linarith+
      with lastE no show False by blast
    qed
    with j pad show "?out ! j = ignoreValue" by simp
  qed
  have c: "(\<forall>i. \<not> risingEdge signal avg i) \<longrightarrow> ?out = replicate ?n ignoreValue"
  proof
    assume no: "\<forall>i. \<not> risingEdge signal avg i"
    with lastE have "out0 = []" by auto
    then show "?out = replicate ?n ignoreValue" by simp
  qed
  from res l a b c show ?thesis by blast
qed

text \<open>The burst \<open>[0, 10, 0, 10, 0]\<close> around its average 5: edges at 1 and 3.\<close>

theorem parseChopperSignal_length_and_borders_witness:
  "[0, 10, 0, 10, 0 :: quint32] \<noteq> [] \<and>
   (\<exists>out. parseChopperSignal [0, 10, 0, 10, 0] 5 0 = Inr out \<and> length out = 5 \<and>
          out ! 0 = ignoreValue \<and> out ! 1 = ignoreValue \<and> out ! 4 = ignoreValue)"
proof -
  have e1: "\<forall>i<0. \<not> risingEdge [0, 10, 0, 10, 0] 5 i" by simp
  have e2: "\<forall>i<1. \<not> risingEdge [0, 10, 0, 10, 0] 5 i" by (simp add: risingEdge_def)
  have e3: "\<forall>i\<ge>4. \<not> risingEdge [0, 10, 0, 10, 0] 5 i" 
    by (auto simp: risingEdge_def nth_Cons split: nat.splits)
  from parseChopperSignal_length_and_borders [of "[0, 10, 0, 10, 0]" 5 0] e1 e2 e3 show ?thesis
    by auto
qed

text \<open>What the loop writes for a run closed by an edge, whatever its length.\<close>

lemma runsSynthesized_step:
  assumes inv: "parseInv signal avg k (ig, was, p, out)"
    and runs: "runsSynthesized signal avg phi k out"
    and k: "k < length signal"
    and step: "parseStep avg phi (ig, was, p, out) (signal ! k) = (ig', was', p', out')"
  shows "runsSynthesized signal avg phi (Suc k) out'"
proof -
  from inv have len: "length out + p = k"
    and was: "was = (signal ! (k - 1) > avg)"
    and ig: "ig \<longleftrightarrow> (\<forall>i<k. \<not> risingEdge signal avg i)"
    and gap: "\<forall>i. length out \<le> i \<and> i < k \<longrightarrow> \<not> risingEdge signal avg i"
    and lastE: "0 < length out \<longrightarrow> risingEdge signal avg (length out - 1)"
    by (simp_all add: parseInv_def)
  have edge: "risingEdge signal avg k \<longleftrightarrow> (signal ! k > avg \<and> \<not> was)"
    using edge_iff [OF k] was by simp
  have cases: "(\<not> risingEdge signal avg k \<and> out' = out) \<or>
        (risingEdge signal avg k \<and> ig \<and> out' = out @ replicate (Suc p) ignoreValue) \<or>
        (risingEdge signal avg k \<and> \<not> ig \<and> out' = out @ map (sinCos phi (Suc p)) [0..<Suc p])"
    using step edge
    by (auto simp: parseStep_def Let_def split: if_splits simp del: replicate_Suc upt_Suc)
  have prefix: "\<exists>ys. out' = out @ ys" using cases by auto
  show ?thesis
    unfolding runsSynthesized_def
  proof (intro allI impI, elim conjE)
    fix e1 e2 i
    assume e1: "risingEdge signal avg e1" and e2: "risingEdge signal avg e2"
      and lt: "e1 < e2" and e2k: "e2 < Suc k"
      and between: "\<forall>m. e1 < m \<and> m < e2 \<longrightarrow> \<not> risingEdge signal avg m"
      and i: "i < e2 - e1"
    show "e1 + 1 + i < length out' \<and> out' ! (e1 + 1 + i) = sinCos phi (e2 - e1) i"
    proof (cases "e2 < k")
      case True
      with runs e1 e2 lt between i have
        old: "e1 + 1 + i < length out \<and> out ! (e1 + 1 + i) = sinCos phi (e2 - e1) i"
        unfolding runsSynthesized_def by blast
      from prefix obtain ys where "out' = out @ ys" by blast
      with old show ?thesis by (simp add: nth_append)
    next
      case False
      with e2k have e2eq: "e2 = k" by simp
      with e2 have ek: "risingEdge signal avg k" by simp
      from e1 lt e2eq ig have nig: "\<not> ig" by auto
      with cases ek have out': "out' = out @ map (sinCos phi (Suc p)) [0..<Suc p]" by auto
      from e1 lt e2eq gap have e1out: "e1 < length out" by (meson not_le)
      then have pos: "0 < length out" by linarith
      with lastE have le: "risingEdge signal avg (length out - 1)" by simp
      have "length out - 1 < k" using len pos by linarith
      with between le e2eq have "\<not> e1 < length out - 1" by blast
      with e1out have e1eq: "e1 + 1 = length out" by linarith
      with len e2eq have L: "e2 - e1 = Suc p" by linarith
      with i have ip: "i < Suc p" by linarith
      then have "map (sinCos phi (Suc p)) [0..<Suc p] ! i = sinCos phi (Suc p) i"
        by (simp del: upt_Suc)
      with out' e1eq L ip show ?thesis
        by (simp add: nth_append del: upt_Suc)
    qed
  qed
qed

lemma parseLoop_runs:
  assumes "k \<le> length signal"
    and "parseLoop avg phi (take k signal) (True, signal ! 0 > avg, 0, []) = (ig, was, p, out)"
  shows "runsSynthesized signal avg phi k out"
  using assms
proof (induction k arbitrary: ig was p out)
  case 0
  then show ?case by (simp add: runsSynthesized_def)
next
  case (Suc k)
  then have k: "k < length signal" by simp
  obtain ig0 was0 p0 out0 where
    l0: "parseLoop avg phi (take k signal) (True, signal ! 0 > avg, 0, []) = (ig0, was0, p0, out0)"
    by (cases "parseLoop avg phi (take k signal) (True, signal ! 0 > avg, 0, [])") auto
  have inv: "parseInv signal avg k (ig0, was0, p0, out0)"
    using parseInv_take [of k signal avg phi] k l0 by simp
  have runs: "runsSynthesized signal avg phi k out0"
    using Suc.IH [OF _ l0] k by simp
  have "take (Suc k) signal = take k signal @ [signal ! k]"
    using k by (simp add: take_Suc_conv_app_nth)
  with Suc.prems(2) l0 have
    "parseStep avg phi (ig0, was0, p0, out0) (signal ! k) = (ig, was, p, out)"
    by (simp add: parseLoop_append)
  from runsSynthesized_step [OF inv runs k this] show ?case .
qed

lemma parseChopperSignal_closed_run:
  assumes res: "parseChopperSignal signal avg phi = Inr out"
    and e1: "risingEdge signal avg e1" and e2: "risingEdge signal avg e2" and lt: "e1 < e2"
    and between: "\<forall>m. e1 < m \<and> m < e2 \<longrightarrow> \<not> risingEdge signal avg m"
    and i: "i < e2 - e1"
  shows "out ! (e1 + 1 + i) = sinCos phi (e2 - e1) i"
proof -
  from e2 have n: "e2 < length signal" by (simp add: risingEdge_def)
  then obtain v0 vs where sig: "signal = v0 # vs" by (cases signal) auto
  obtain ig was p out0 where
    loop: "parseLoop avg phi signal (True, signal ! 0 > avg, 0, []) = (ig, was, p, out0)"
    by (cases "parseLoop avg phi signal (True, signal ! 0 > avg, 0, [])") auto
  from parseLoop_runs [of "length signal" signal avg phi] loop
  have "runsSynthesized signal avg phi (length signal) out0" by simp
  with e1 e2 lt n between i have
    "e1 + 1 + i < length out0 \<and> out0 ! (e1 + 1 + i) = sinCos phi (e2 - e1) i"
    unfolding runsSynthesized_def by blast
  moreover from res sig loop
  have "out = out0 @ replicate (length signal - length out0) ignoreValue"
    by (simp add: parseChopperSignal_def)
  ultimately show ?thesis by (simp add: nth_append)
qed

text \<open>A sine is never \<open>2.0\<close>: only the ignore pair has that first component.\<close>

lemma sin_neq_2 [simp]: "sin (x :: real) \<noteq> 2"
  using sin_le_one [of x] by linarith

lemma fst_sinCos [simp]: "fst (sinCos phi n i) \<noteq> 2"
  by (simp add: sinCos_def Let_def)

lemma parseStep_entries:
  assumes "parseStep avg phi (ig, was, n, out) v = (ig', was', n', out')"
    and "\<forall>p\<in>set out. p = ignoreValue \<or> fst p \<noteq> 2"
  shows "\<forall>p\<in>set out'. p = ignoreValue \<or> fst p \<noteq> 2"
proof -
  have "out' = out \<or> out' = out @ replicate (Suc n) ignoreValue \<or>
        out' = out @ map (sinCos phi (Suc n)) [0..<Suc n]"
    using assms(1)
    by (auto simp: parseStep_def Let_def split: if_splits simp del: replicate_Suc upt_Suc)
  moreover have "fst p \<noteq> 2" if "p \<in> set (map (sinCos phi (Suc n)) [0..<Suc n])" for p
  proof -
    from that obtain i where "p = sinCos phi (Suc n) i" by (auto simp del: upt_Suc)
    then show ?thesis by simp
  qed
  moreover have "p = ignoreValue" if "p \<in> set (replicate (Suc n) ignoreValue)" for p
    using that by (simp del: replicate_Suc)
  ultimately show ?thesis using assms(2) by (elim disjE) (auto simp del: replicate_Suc upt_Suc)
qed

lemma parseLoop_entries:
  assumes "parseLoop avg phi vs (ig, was, n, out) = (ig', was', n', out')"
    and "\<forall>p\<in>set out. p = ignoreValue \<or> fst p \<noteq> 2"
  shows "\<forall>p\<in>set out'. p = ignoreValue \<or> fst p \<noteq> 2"
  using assms
proof (induction vs arbitrary: ig was n out)
  case Nil
  then show ?case by simp
next
  case (Cons v vs)
  obtain ig1 was1 n1 out1 where
    st: "parseStep avg phi (ig, was, n, out) v = (ig1, was1, n1, out1)"
    by (cases "parseStep avg phi (ig, was, n, out) v") auto
  from parseStep_entries [OF st Cons.prems(2)]
  have "\<forall>p\<in>set out1. p = ignoreValue \<or> fst p \<noteq> 2" .
  moreover from Cons.prems(1) st
  have "parseLoop avg phi vs (ig1, was1, n1, out1) = (ig', was', n', out')" by simp
  ultimately show ?case by (rule Cons.IH [rotated])
qed

lemma parseChopperSignal_entries:
  assumes "parseChopperSignal signal avg phi = Inr out"
  shows "\<forall>p\<in>set out. p = ignoreValue \<or> fst p \<noteq> 2"
proof (cases signal)
  case Nil
  with assms show ?thesis by (simp add: parseChopperSignal_def)
next
  case (Cons v0 vs)
  obtain ig was n out0 where
    loop: "parseLoop avg phi signal (True, v0 > avg, 0, []) = (ig, was, n, out0)"
    by (cases "parseLoop avg phi signal (True, v0 > avg, 0, [])") auto
  from parseLoop_entries [OF loop] have "\<forall>p\<in>set out0. p = ignoreValue \<or> fst p \<noteq> 2" by simp
  moreover from assms Cons loop
  have "out = out0 @ replicate (length signal - length out0) ignoreValue"
    by (simp add: parseChopperSignal_def)
  ultimately show ?thesis by auto
qed

lemma sinCos_neq_ignoreValue [simp]: "sinCos phi n i \<noteq> ignoreValue"
proof
  assume "sinCos phi n i = ignoreValue"
  then have "fst (sinCos phi n i) = 2" by (simp add: ignoreValue_def)
  then show False by simp
qed

text \<open>Two bursts of the reference, evaluated.\<close>

lemma avg77: "avgRight [7, 7] = 7"
  by (simp add: avgRight_def)

lemma avg_0_10: "avgRight [0, 10, 0, 10] = 5"
  by (simp add: avgRight_def)

lemma parse77: "parseChopperSignal [7, 7] 7 phi = Inr [ignoreValue, ignoreValue]"
  by (simp add: parseChopperSignal_def parseStep_def)

lemma parse_0_10:
  "parseChopperSignal [0, 10, 0, 10] 5 phi =
     Inr [ignoreValue, ignoreValue, sinCos phi 2 0, sinCos phi 2 1]"
  by (simp add: parseChopperSignal_def parseStep_def upt_rec) (simp add: numeral_2_eq_2)

lemma cos_inverse_pi_pos: "0 < cos (1 / pi)"
proof (rule cos_gt_zero)
  show "0 < 1 / pi" by simp
  have "1 / pi \<le> 1 / 2" using pi_ge_two by (simp add: field_simps)
  also have "(1 / 2 :: real) < pi / 2" using pi_ge_two by simp
  finally show "1 / pi < pi / 2" .
qed

text \<open>
  C1. On a closed run of length \<open>L\<close> the claim has the angle \<open>2 pi i / L + phase\<close>.
  The inner loop multiplies by \<open>M_2_PI\<close>, which is \<open>2 / pi\<close>. On the reference
  \<open>[0, 10, 0, 10]\<close> with average 5 and phase 0 the closed run is the samples 2 and 3,
  so \<open>L = 2\<close>; at \<open>i = 1\<close> the code gives the sine and cosine of \<open>1 / pi\<close>, where
  the claimed angle \<open>pi\<close> gives \<open>(0, -1)\<close>.
\<close>

theorem parseChopperSignal_angle_two_over_pi:
  "parseChopperSignal [0, 10, 0, 10] 5 0 =
     Inr [ignoreValue, ignoreValue, (0, 1), (sin (1 / pi), cos (1 / pi))] \<and>
   claimedSinCos 0 2 1 = (0, - 1) \<and>
   (sin (1 / pi), cos (1 / pi)) \<noteq> claimedSinCos 0 2 1"
proof -
  have "parseChopperSignal [0, 10, 0, 10] 5 0 =
     Inr [ignoreValue, ignoreValue, (0, 1), (sin (1 / pi), cos (1 / pi))]"
    by (simp add: parse_0_10 sinCos_def M_2_PI_def Let_def)
  moreover have c: "claimedSinCos 0 2 1 = (0, - 1)"
    by (simp add: claimedSinCos_def)
  moreover have "(sin (1 / pi), cos (1 / pi)) \<noteq> claimedSinCos 0 2 1"
  proof -
    have "cos (1 / pi) \<noteq> - 1" using cos_inverse_pi_pos by linarith
    then show ?thesis unfolding c by simp
  qed
  ultimately show ?thesis by blast
qed

subsection \<open>The Session Controller\<close>

lemma session_simps:
  "audioInput (session rate integration phi) \<noteq> None"
  "outputPeriod (session rate integration phi) = 1 / 2"
  "integrationTime (session rate integration phi) = integration"
  "vumeterTime (session rate integration phi) = 2 / 100"
  "phase (session rate integration phi) = phi"
  "timeValue (session rate integration phi) = - (integration / 2)"
  "sampleIntegration (session rate integration phi) =
     sampleCount (toDouble (real_of_int rate * integration))"
  "sampleVumeter (session rate integration phi) =
     sampleCount (toDouble (real_of_int rate * (2 / 100)))"
  "data (session rate integration phi) = []"
  by (simp_all add: session_def prepared_def start_def Lockin2_new_def blankMemory_def pcm32_def anyDevice_def
      setPhase_def setIntegrationTime_def setVumeterTime_def setOutputPeriod_def
      isFormatSupported_def)

text \<open>Ten samples a second for the double nearest to 0.3 seconds: three samples.\<close>

lemma session_three_tenths:
  "sampleIntegration (session 10 (5404319552844595 / 18014398509481984) 0) = 3"
proof -
  have "sampleIntegration (session 10 (5404319552844595 / 18014398509481984) 0) =
        sampleCount (toDouble (10 * (5404319552844595 / 18014398509481984)))"
    by (simp only: session_simps of_int_numeral)
  also have "\<dots> = 3" by (simp only: toDouble_three_tenths) (simp add: sampleCount_def toInt_def)
  finally show ?thesis .
qed

lemma start_session:
  "start anyDevice (pcm32 rate) (prepared integration phi) = (True, session rate integration phi)"
  by (simp add: prepared_def session_def start_def Lockin2_new_def blankMemory_def pcm32_def anyDevice_def
      setPhase_def setIntegrationTime_def setVumeterTime_def setOutputPeriod_def
      isFormatSupported_def)

lemma prepared_simps:
  "data (prepared integration phi) = []"
  "integrationTime (prepared integration phi) = integration"
  "outputPeriod (prepared integration phi) = 1 / 2"
  by (simp_all add: prepared_def Lockin2_new_def blankMemory_def
      setPhase_def setIntegrationTime_def setVumeterTime_def setOutputPeriod_def)

lemma start_True:
  assumes "start audioDevice format s0 = (True, s)"
  shows "timeValue s = - (integrationTime s0 / 2) \<and> outputPeriod s = outputPeriod s0 \<and>
         integrationTime s = integrationTime s0 \<and> data s = data s0 \<and>
         sampleIntegration s =
           sampleCount (toDouble (real_of_int (sampleRate format) * integrationTime s0)) \<and>
         sampleVumeter s =
           sampleCount (toDouble (real_of_int (sampleRate format) * vumeterTime s0))"
  using assms by (auto simp: start_def qDebug_def split: if_splits)

text \<open>
  C2. While the session is active, \<open>setOutputPeriod\<close>, \<open>setIntegrationTime\<close> and
  \<open>setVumeterTime\<close> write their warning and change nothing else, so the stored value
  is the one before the call, for every argument. \<open>setPhase\<close> has no such test: it
  stores its argument in every state of the session.
\<close>

theorem guarded_setters_keep_value:
  assumes "audioInput s \<noteq> None"
  shows "setOutputPeriod v s = qDebug ''setOutputPeriod : lockin is running'' s \<and>
         outputPeriod (setOutputPeriod v s) = outputPeriod s \<and>
         setIntegrationTime v s = qDebug ''setIntegrationTime : lockin is running'' s \<and>
         integrationTime (setIntegrationTime v s) = integrationTime s \<and>
         setVumeterTime v s = qDebug ''setVumeterTime : lockin is running'' s \<and>
         vumeterTime (setVumeterTime v s) = vumeterTime s \<and>
         phase (setPhase v s) = v"
  using assms
  by (auto simp: setOutputPeriod_def setIntegrationTime_def setVumeterTime_def setPhase_def
      qDebug_def)

text \<open>On a running session at 44100 Hz.\<close>

theorem guarded_setters_keep_value_witness:
  "audioInput (session 44100 3 0) \<noteq> None \<and>
   outputPeriod (setOutputPeriod 1 (session 44100 3 0)) = 1 / 2 \<and>
   integrationTime (setIntegrationTime 1 (session 44100 3 0)) = 3 \<and>
   vumeterTime (setVumeterTime 1 (session 44100 3 0)) = 2 / 100 \<and>
   phase (setPhase 1 (session 44100 3 0)) = 1"
  using guarded_setters_keep_value [of "session 44100 3 0" 1] by (simp add: session_simps qDebug_def)

text \<open>
  C2, as stated, fails for the phase: on the running session \<open>setPhase 1\<close> changes
  the stored phase from 0 to 1.
\<close>

theorem setPhase_while_active_counterexample:
  "audioInput (session 44100 3 0) \<noteq> None \<and>
   phase (setPhase 1 (session 44100 3 0)) \<noteq> phase (session 44100 3 0)"
  by (simp add: session_simps setPhase_def)

subsection \<open>The processing cycle\<close>

lemma removeExcess_eq:
  "removeExcess cap ds = (if cap < 0 then Inl EmptyList else Inr (drop (length ds - nat cap) ds))"
proof (induction ds)
  case Nil
  show ?case by simp
next
  case (Cons d ds)
  show ?case
  proof (cases "int (length (d # ds)) > cap")
    case True
    then have "length (d # ds) - nat cap = Suc (length ds - nat cap)" by auto
    with True Cons show ?thesis by simp
  next
    case False
    then have "length (d # ds) - nat cap = 0" "\<not> cap < 0" by auto
    with False show ?thesis by simp
  qed
qed

lemma interpretInput_Nil:
  "interpretInput lockFree [] s =
     Inr (qDebug ''interpretInput : nothing new...'' (s\<lparr>timeValue := timeValue s + outputPeriod s\<rparr>), None)"
  by (simp add: interpretInput_def)

lemma interpretInput_nonempty:
  assumes "burst \<noteq> []"
  shows "\<exists>csc. parseChopperSignal (map snd burst) (avgRight (map snd burst)) (phase s) = Inr csc \<and>
     length csc = length burst \<and>
     interpretInput lockFree burst s =
       integrate lockFree (zip (map (\<lambda>p. real (unat (fst p))) burst) csc)
         (s\<lparr>timeValue := timeValue s + outputPeriod s\<rparr>)"
proof -
  from assms have "map snd burst \<noteq> []" by simp
  from parseChopperSignal_Inr [OF this] obtain csc where
    csc: "parseChopperSignal (map snd burst) (avgRight (map snd burst)) (phase s) = Inr csc"
    and len: "length csc = length burst" by auto
  have "interpretInput lockFree burst s =
       integrate lockFree (zip (map (\<lambda>p. real (unat (fst p))) burst) csc)
         (s\<lparr>timeValue := timeValue s + outputPeriod s\<rparr>)"
    using assms csc by (simp add: interpretInput_def integrate_def Let_def)
  with csc len show ?thesis by blast
qed

lemma integrate_fields:
  assumes "integrate lockFree zs s = Inr (s', ev)"
  shows "timeValue s' = timeValue s \<and> outputPeriod s' = outputPeriod s \<and>
         integrationTime s' = integrationTime s \<and> vumeterTime s' = vumeterTime s \<and>
         sampleIntegration s' = sampleIntegration s \<and> sampleVumeter s' = sampleVumeter s \<and>
         phase s' = phase s \<and> audioInput s' = audioInput s"
  using assms
  by (auto simp: integrate_def Let_def qDebug_def split: if_splits sum.splits prod.splits)

lemma integrate_data:
  assumes "integrate lockFree zs s = Inr (s', ev)"
  shows "if int (length (data s) + length zs) < sampleIntegration s
         then ev = None \<and> data s' = data s @ map demodulate zs
         else 0 \<le> sampleIntegration s \<and>
              data s' = drop (length (data s) + length zs - nat (sampleIntegration s))
                          (data s @ map demodulate zs) \<and>
              ev = Some (timeValue s,
                         qdiv (fst (sumData (data s') (0, 0, 0))) (snd (snd (sumData (data s') (0, 0, 0)))),
                         qdiv (fst (snd (sumData (data s') (0, 0, 0)))) (snd (snd (sumData (data s') (0, 0, 0))))) \<and>
              xValue s' = qdiv (fst (sumData (data s') (0, 0, 0))) (snd (snd (sumData (data s') (0, 0, 0)))) \<and>
              yValue s' = qdiv (fst (snd (sumData (data s') (0, 0, 0)))) (snd (snd (sumData (data s') (0, 0, 0))))"
  using assms
  by (auto simp: integrate_def Let_def qDebug_def removeExcess_eq
      split: if_splits sum.splits prod.splits)

lemma integrate_vumeter:
  assumes "integrate True zs s = Inr (s', ev)"
  shows "vumeterData s' = vumeterLoop (sampleVumeter s) (rev zs) []"
  using assms
  by (auto simp: integrate_def Let_def removeExcess_eq split: if_splits sum.splits prod.splits)

lemma interpretInput_fields:
  assumes "interpretInput lockFree burst s = Inr (s', ev)"
  shows "timeValue s' = timeValue s + outputPeriod s \<and> outputPeriod s' = outputPeriod s \<and>
         integrationTime s' = integrationTime s \<and> vumeterTime s' = vumeterTime s \<and>
         sampleIntegration s' = sampleIntegration s \<and> sampleVumeter s' = sampleVumeter s \<and>
         phase s' = phase s \<and> audioInput s' = audioInput s"
proof (cases "burst = []")
  case True
  with assms show ?thesis by (auto simp: interpretInput_Nil qDebug_def)
next
  case False
  from interpretInput_nonempty [OF False, of s lockFree] assms obtain zs where
    "integrate lockFree zs (s\<lparr>timeValue := timeValue s + outputPeriod s\<rparr>) = Inr (s', ev)"
    by auto
  from integrate_fields [OF this] show ?thesis by simp
qed

lemma interpretInput_data:
  assumes "interpretInput lockFree burst s = Inr (s', ev)"
  shows "\<exists>new. length new = length burst \<and>
           (if burst = [] \<or> int (length (data s) + length burst) < sampleIntegration s
            then ev = None \<and> data s' = data s @ new
            else 0 \<le> sampleIntegration s \<and>
              data s' = drop (length (data s) + length burst - nat (sampleIntegration s))
                          (data s @ new) \<and>
              ev = Some (timeValue s + outputPeriod s,
                         qdiv (fst (sumData (data s') (0, 0, 0))) (snd (snd (sumData (data s') (0, 0, 0)))),
                         qdiv (fst (snd (sumData (data s') (0, 0, 0)))) (snd (snd (sumData (data s') (0, 0, 0))))) \<and>
              xValue s' = qdiv (fst (sumData (data s') (0, 0, 0))) (snd (snd (sumData (data s') (0, 0, 0)))) \<and>
              yValue s' = qdiv (fst (snd (sumData (data s') (0, 0, 0)))) (snd (snd (sumData (data s') (0, 0, 0)))))"
proof (cases "burst = []")
  case True
  with assms have "ev = None \<and> data s' = data s @ []"
    by (auto simp: interpretInput_Nil qDebug_def)
  with True show ?thesis by auto
next
  case False
  from interpretInput_nonempty [OF False, of s lockFree] assms obtain csc where
    len: "length csc = length burst" and
    eq: "integrate lockFree (zip (map (\<lambda>p. real (unat (fst p))) burst) csc)
           (s\<lparr>timeValue := timeValue s + outputPeriod s\<rparr>) = Inr (s', ev)"
    by auto
  let ?zs = "zip (map (\<lambda>p. real (unat (fst p))) burst) csc"
  have l: "length ?zs = length burst" using len by simp
  then have l': "length (map demodulate ?zs) = length burst" by simp
  from integrate_data [OF eq] l False show ?thesis
    by (intro exI [of _ "map demodulate ?zs"] conjI l') (simp split: if_splits)
qed

lemma interpretInput_window:
  assumes "interpretInput lockFree burst s = Inr (s', ev)"
  shows "\<exists>new. length new = length burst \<and>
           (if burst = [] \<or> int (length (data s) + length burst) < sampleIntegration s
            then ev = None \<and> data s' = data s @ new
            else ev \<noteq> None \<and> 0 \<le> sampleIntegration s \<and>
              data s' = drop (length (data s) + length burst - nat (sampleIntegration s))
                          (data s @ new))"
proof -
  from interpretInput_data [OF assms] obtain new where
    len: "length new = length burst" and
    c: "if burst = [] \<or> int (length (data s) + length burst) < sampleIntegration s
        then ev = None \<and> data s' = data s @ new
        else 0 \<le> sampleIntegration s \<and>
              data s' = drop (length (data s) + length burst - nat (sampleIntegration s))
                          (data s @ new) \<and>
              ev = Some (timeValue s + outputPeriod s,
                         qdiv (fst (sumData (data s') (0, 0, 0))) (snd (snd (sumData (data s') (0, 0, 0)))),
                         qdiv (fst (snd (sumData (data s') (0, 0, 0)))) (snd (snd (sumData (data s') (0, 0, 0))))) \<and>
              xValue s' = qdiv (fst (sumData (data s') (0, 0, 0))) (snd (snd (sumData (data s') (0, 0, 0)))) \<and>
              yValue s' = qdiv (fst (snd (sumData (data s') (0, 0, 0)))) (snd (snd (sumData (data s') (0, 0, 0))))"
    by blast
  from c have
    "if burst = [] \<or> int (length (data s) + length burst) < sampleIntegration s
            then ev = None \<and> data s' = data s @ new
            else ev \<noteq> None \<and> 0 \<le> sampleIntegration s \<and>
              data s' = drop (length (data s) + length burst - nat (sampleIntegration s))
                          (data s @ new)"
    by (simp split: if_splits)
  with len show ?thesis by blast
qed

text \<open>
  A cycle fails only in \<open>removeFirst\<close>, on a capacity below zero: with any other
  capacity it returns, and so does every sequence of cycles.
\<close>

lemma integrate_total:
  assumes "0 \<le> sampleIntegration s"
  shows "\<exists>s' ev. integrate lockFree zs s = Inr (s', ev)"
  using assms
  by (auto simp: integrate_def Let_def qDebug_def removeExcess_eq split: prod.splits)

lemma interpretInput_total:
  assumes "0 \<le> sampleIntegration s"
  shows "\<exists>s' ev. interpretInput lockFree burst s = Inr (s', ev)"
proof (cases "burst = []")
  case True
  then show ?thesis by (simp add: interpretInput_Nil)
next
  case False
  from interpretInput_nonempty [OF False, of s lockFree] obtain csc where
    eq: "interpretInput lockFree burst s =
       integrate lockFree (zip (map (\<lambda>p. real (unat (fst p))) burst) csc)
         (s\<lparr>timeValue := timeValue s + outputPeriod s\<rparr>)" by blast
  have "0 \<le> sampleIntegration (s\<lparr>timeValue := timeValue s + outputPeriod s\<rparr>)"
    using assms by simp
  from integrate_total [OF this] eq show ?thesis by simp
qed

lemma cycles_total:
  assumes "0 \<le> sampleIntegration s"
  shows "\<exists>s' evs. cycles ins s = Inr (s', evs)"
  using assms
proof (induction ins arbitrary: s)
  case Nil
  show ?case by simp
next
  case (Cons i ins)
  obtain lockFree burst where i: "i = (lockFree, burst)" by (cases i)
  from interpretInput_total [OF Cons.prems] obtain s1 ev where
    step: "interpretInput lockFree burst s = Inr (s1, ev)" by blast
  from interpretInput_fields [OF step] Cons.prems have "0 \<le> sampleIntegration s1" by simp
  from Cons.IH [OF this] obtain s' evs where "cycles ins s1 = Inr (s', evs)" by blast
  with step i show ?case by simp
qed

lemma sumData_ignored:
  "\<forall>d\<in>set ds. fst d = 1 / 2 \<or> snd d = 1 / 2 \<Longrightarrow> sumData ds acc = acc"
  by (induction ds acc rule: sumData.induct) auto

lemma sumData_skip:
  assumes "fst d = 1 / 2 \<or> snd d = 1 / 2"
  shows "sumData (pre @ d # post) acc = sumData (pre @ post) acc"
proof (induction pre arbitrary: acc)
  case Nil
  obtain x y c where "acc = (x, y, c)" by (cases acc)
  with assms show ?case by auto
next
  case (Cons p pre)
  obtain x y c where "acc = (x, y, c)" by (cases acc)
  with Cons show ?case by simp
qed

text \<open>Cycles on bursts whose reference is constant, so that every sample is ignored.\<close>

lemma cycle77:
  assumes "timeValue s = t" "outputPeriod s = 1 / 2" "sampleIntegration s = 2" "data s = []"
  shows "\<exists>s'. interpretInput True [(1, 7), (1, 7)] s = Inr (s', Some (t + 1 / 2, NaN, NaN)) \<and>
     data s' = [(1 / 2, 1 / 2), (1 / 2, 1 / 2)] \<and> xValue s' = NaN \<and> yValue s' = NaN"
  using assms
  by (simp add: interpretInput_def avg77 parse77 Let_def demodulate_def ignoreValue_def qdiv_def)

lemma cycles_example:
  "\<exists>s'. cycles [(True, [(1, 7), (1, 7)]), (True, [(1, 7), (1, 7)])] (session 4 1 0) =
     Inr (s', [None, Some (1 / 2, NaN, NaN)]) \<and>
     data s' = [(1 / 2, 1 / 2), (1 / 2, 1 / 2), (1 / 2, 1 / 2), (1 / 2, 1 / 2)] \<and>
     audioInput s' = audioInput (session 4 1 0)"
  by (simp add: interpretInput_def avg77 parse77 Let_def demodulate_def ignoreValue_def qdiv_def
      session_simps sampleCount_def toInt_def)

text \<open>
  C3. When the cycle of a burst that is not empty ends with a primed window in which no
  sample passes the test of the averaging loop, the division is \<open>0 / 0\<close>: the cycle
  emits \<open>newValues\<close> with not-a-number for \<open>x\<close> and for \<open>y\<close>, and stores the same in
  \<open>_xValue\<close> and \<open>_yValue\<close>. There is no other signal.
\<close>

theorem no_valid_sample_emits_NaN:
  assumes run: "interpretInput lockFree burst s = Inr (s', ev)"
    and ne: "burst \<noteq> []"
    and primed: "sampleIntegration s \<le> int (length (data s'))"
    and none: "\<forall>d\<in>set (data s'). fst d = 1 / 2 \<or> snd d = 1 / 2"
  shows "ev = Some (timeValue s', NaN, NaN) \<and> xValue s' = NaN \<and> yValue s' = NaN"
proof -
  from interpretInput_data [OF run] obtain new where
    len: "length new = length burst" and
    c: "if burst = [] \<or> int (length (data s) + length burst) < sampleIntegration s
        then ev = None \<and> data s' = data s @ new
        else 0 \<le> sampleIntegration s \<and>
              data s' = drop (length (data s) + length burst - nat (sampleIntegration s))
                          (data s @ new) \<and>
              ev = Some (timeValue s + outputPeriod s,
                         qdiv (fst (sumData (data s') (0, 0, 0))) (snd (snd (sumData (data s') (0, 0, 0)))),
                         qdiv (fst (snd (sumData (data s') (0, 0, 0)))) (snd (snd (sumData (data s') (0, 0, 0))))) \<and>
              xValue s' = qdiv (fst (sumData (data s') (0, 0, 0))) (snd (snd (sumData (data s') (0, 0, 0)))) \<and>
              yValue s' = qdiv (fst (snd (sumData (data s') (0, 0, 0)))) (snd (snd (sumData (data s') (0, 0, 0))))"
    by blast
  have "\<not> (burst = [] \<or> int (length (data s) + length burst) < sampleIntegration s)"
  proof
    assume a: "burst = [] \<or> int (length (data s) + length burst) < sampleIntegration s"
    with c have "data s' = data s @ new" by simp
    with len have "length (data s') = length (data s) + length burst" by simp
    with a ne primed show False by simp
  qed
  moreover have "sumData (data s') (0, 0, 0) = (0, 0, 0)"
    using none by (rule sumData_ignored)
  moreover have "timeValue s' = timeValue s + outputPeriod s"
    using interpretInput_fields [OF run] by simp
  ultimately show ?thesis using c by (simp add: qdiv_def)
qed

text \<open>At 2 Hz with one second of integration, on two samples of a constant reference.\<close>

theorem no_valid_sample_emits_NaN_witness:
  "[(1, 7), (1, 7 :: quint32)] \<noteq> ([] :: (quint32 \<times> quint32) list) \<and>
   (\<exists>s'. interpretInput True [(1, 7), (1, 7)] (session 2 1 0) = Inr (s', Some (0, NaN, NaN)) \<and>
         xValue s' = NaN \<and> yValue s' = NaN)"
proof -
  from cycle77 [of "session 2 1 0" "- (1 / 2)"] obtain s' ev where
    run: "interpretInput True [(1, 7), (1, 7)] (session 2 1 0) = Inr (s', ev)" and
    d: "data s' = [(1 / 2, 1 / 2), (1 / 2, 1 / 2)]"
    by (auto simp: session_simps sampleCount_def toInt_def)
  have t: "timeValue s' = 0"
    using interpretInput_fields [OF run] by (simp add: session_simps)
  have ne: "[(1, 7), (1, 7 :: quint32)] \<noteq> ([] :: (quint32 \<times> quint32) list)" by simp
  have primed: "sampleIntegration (session 2 1 0) \<le> int (length (data s'))"
    by (simp add: d session_simps sampleCount_def toInt_def)
  have none: "\<forall>d\<in>set (data s'). fst d = 1 / 2 \<or> snd d = 1 / 2" by (simp add: d)
  from no_valid_sample_emits_NaN [OF run ne primed none] run t show ?thesis by simp
qed

text \<open>
  C3, as stated, fails: on that burst the window is primed and holds no valid sample,
  and the cycle emits \<open>newValues(0, NaN, NaN)\<close>.
\<close>

theorem no_valid_sample_counterexample:
  "map_sum id snd (interpretInput True [(1, 7), (1, 7)] (session 2 1 0)) = Inr (Some (0, NaN, NaN))"
proof -
  from cycle77 [of "session 2 1 0" "- (1 / 2)"] obtain s' where
    "interpretInput True [(1, 7), (1, 7)] (session 2 1 0) = Inr (s', Some (- (1 / 2) + 1 / 2, NaN, NaN))"
    by (auto simp: session_simps sampleCount_def toInt_def)
  then show ?thesis by simp
qed

lemma cycles_time:
  assumes "cycles ins s = Inr (s', evs)"
  shows "length evs = length ins \<and> outputPeriod s' = outputPeriod s \<and>
         timeValue s' = timeValue s + real (length ins) * outputPeriod s \<and>
         (\<forall>k<length ins. \<forall>t x y. evs ! k = Some (t, x, y) \<longrightarrow>
            t = timeValue s + real (Suc k) * outputPeriod s)"
  using assms
proof (induction ins arbitrary: s evs)
  case Nil
  then show ?case by simp
next
  case (Cons i ins)
  obtain lockFree burst where i: "i = (lockFree, burst)" by (cases i)
  from Cons.prems i obtain s1 ev evs1 where
    step: "interpretInput lockFree burst s = Inr (s1, ev)" and
    rest: "cycles ins s1 = Inr (s', evs1)" and
    evs: "evs = ev # evs1"
    by (auto split: sum.splits prod.splits)
  from interpretInput_fields [OF step] have
    t1: "timeValue s1 = timeValue s + outputPeriod s" and p1: "outputPeriod s1 = outputPeriod s"
    by simp_all
  from Cons.IH [OF rest] have
    l: "length evs1 = length ins" and p: "outputPeriod s' = outputPeriod s1" and
    t: "timeValue s' = timeValue s1 + real (length ins) * outputPeriod s1" and
    e: "\<forall>k<length ins. \<forall>t x y. evs1 ! k = Some (t, x, y) \<longrightarrow>
            t = timeValue s1 + real (Suc k) * outputPeriod s1"
    by simp_all
  have "\<forall>k<length (i # ins). \<forall>t x y. evs ! k = Some (t, x, y) \<longrightarrow>
            t = timeValue s + real (Suc k) * outputPeriod s"
  proof (intro allI impI)
    fix k t x y
    assume k: "k < length (i # ins)" and ek: "evs ! k = Some (t, x, y)"
    show "t = timeValue s + real (Suc k) * outputPeriod s"
    proof (cases k)
      case 0
      with ek evs have "ev = Some (t, x, y)" by simp
      with step have "interpretInput lockFree burst s = Inr (s1, Some (t, x, y))" by simp
      from interpretInput_data [OF this] 0 show ?thesis by (auto split: if_splits)
    next
      case (Suc j)
      with k ek evs have "j < length ins" "evs1 ! j = Some (t, x, y)" by simp_all
      with e have "t = timeValue s1 + real (Suc j) * outputPeriod s1" by blast
      with t1 p1 Suc show ?thesis by (simp add: algebra_simps)
    qed
  qed
  moreover have "timeValue s' = timeValue s + real (length (i # ins)) * outputPeriod s"
    using t t1 p1 by (simp add: algebra_simps)
  ultimately show ?case using l p p1 evs by simp
qed

text \<open>
  C4. \<open>start\<close> sets the time cursor to \<open>-integrationTime / 2\<close>, and every cycle adds
  \<open>outputPeriod\<close> to it, whether it emits or not. The signal emitted by the cycle
  number \<open>k + 1\<close> after \<open>start\<close> carries \<open>-integrationTime / 2 + (k + 1) outputPeriod\<close>:
  the cycles counted are all the cycles, not the emitting ones.
\<close>

theorem timeValue_counts_every_cycle:
  assumes "start audioDevice format s0 = (True, s)" and "cycles ins s = Inr (s', evs)"
  shows "timeValue s = - (integrationTime s0 / 2) \<and>
         timeValue s' = - (integrationTime s0 / 2) + real (length ins) * outputPeriod s0 \<and>
         length evs = length ins \<and>
         (\<forall>k<length ins. \<forall>t x y. evs ! k = Some (t, x, y) \<longrightarrow>
            t = - (integrationTime s0 / 2) + real (Suc k) * outputPeriod s0)"
  using start_True [OF assms(1)] cycles_time [OF assms(2)] by simp

text \<open>
  At 4 Hz with one second of integration and bursts of two samples: the first cycle is
  the cold start, the second emits.
\<close>

theorem timeValue_counts_every_cycle_witness:
  "\<exists>s' x y. start anyDevice (pcm32 4) (prepared 1 0) = (True, session 4 1 0) \<and>
     cycles [(True, [(1, 7), (1, 7)]), (True, [(1, 7), (1, 7)])] (session 4 1 0) =
       Inr (s', [None, Some (1 / 2, x, y)]) \<and>
     timeValue (session 4 1 0) = - (1 / 2) \<and> timeValue s' = 1 / 2"
proof -
  from cycles_example obtain s' where
    run: "cycles [(True, [(1, 7), (1, 7)]), (True, [(1, 7), (1, 7)])] (session 4 1 0) =
     Inr (s', [None, Some (1 / 2, NaN, NaN)])" by blast
  from timeValue_counts_every_cycle [OF start_session run] have
    "timeValue (session 4 1 0) = - (1 / 2) \<and> timeValue s' = 1 / 2"
    by (simp add: prepared_simps)
  with run start_session show ?thesis by blast
qed

text \<open>
  C4, as stated, fails: in that session the first signal emitted carries the time
  \<open>1 / 2\<close>, and \<open>-integrationTime / 2 + 1 outputPeriod\<close> is \<open>0\<close>.
\<close>

theorem timeValue_cold_start_counterexample:
  "map_sum id (map (map_option fst) \<circ> snd)
     (cycles [(True, [(1, 7), (1, 7)]), (True, [(1, 7), (1, 7)])] (session 4 1 0)) =
     Inr [None, Some (1 / 2)] \<and>
   (1 / 2 :: real) \<noteq> - (integrationTime (session 4 1 0) / 2) + 1 * outputPeriod (session 4 1 0)"
proof -
  from cycles_example obtain s' where
    "cycles [(True, [(1, 7), (1, 7)]), (True, [(1, 7), (1, 7)])] (session 4 1 0) =
     Inr (s', [None, Some (1 / 2, NaN, NaN)])" by blast
  then show ?thesis by (simp add: session_simps)
qed

text \<open>
  C6. A cycle on a capacity that is not negative returns, and it emits exactly when its
  burst is not empty and the window, with the samples of the burst appended, holds at
  least \<open>_sampleIntegration\<close> samples. A cycle that does not emit leaves in the window
  all that it held and the whole burst; a cycle that emits leaves the window at the
  capacity. So nothing is emitted while the window holds fewer samples than the
  capacity, and the first signal comes with the burst that brings the window to it,
  whatever the window held when the session started. \<open>start\<close> sets
  \<open>_sampleIntegration\<close> from the sample rate and the integration time.
\<close>

theorem emission_begins_at_capacity:
  assumes cap0: "0 \<le> sampleIntegration s"
  shows "\<exists>s' ev. interpretInput lockFree burst s = Inr (s', ev) \<and>
           (ev \<noteq> None) =
             (burst \<noteq> [] \<and> sampleIntegration s \<le> int (length (data s) + length burst)) \<and>
           (ev = None \<longrightarrow> length (data s') = length (data s) + length burst) \<and>
           (ev \<noteq> None \<longrightarrow> int (length (data s')) = sampleIntegration s)"
proof -
  from interpretInput_total [OF cap0] obtain s' ev where
    run: "interpretInput lockFree burst s = Inr (s', ev)" by blast
  from interpretInput_window [OF run] obtain new where
    len: "length new = length burst" and
    c: "if burst = [] \<or> int (length (data s) + length burst) < sampleIntegration s
        then ev = None \<and> data s' = data s @ new
        else ev \<noteq> None \<and> 0 \<le> sampleIntegration s \<and>
              data s' = drop (length (data s) + length burst - nat (sampleIntegration s))
                          (data s @ new)"
    by blast
  have "(ev \<noteq> None) =
             (burst \<noteq> [] \<and> sampleIntegration s \<le> int (length (data s) + length burst)) \<and>
           (ev = None \<longrightarrow> length (data s') = length (data s) + length burst) \<and>
           (ev \<noteq> None \<longrightarrow> int (length (data s')) = sampleIntegration s)"
  proof (cases "burst = [] \<or> int (length (data s) + length burst) < sampleIntegration s")
    case True
    with c have "ev = None" and "data s' = data s @ new" by simp_all
    with True len show ?thesis by auto
  next
    case False
    with c have e: "ev \<noteq> None" and
      d: "data s' = drop (length (data s) + length burst - nat (sampleIntegration s)) (data s @ new)"
      by simp_all
    from False have "sampleIntegration s \<le> int (length (data s) + length burst)" by simp
    with d cap0 len have "int (length (data s')) = sampleIntegration s" by simp
    with e False show ?thesis by auto
  qed
  with run show ?thesis by blast
qed

text \<open>
  Two samples on an empty window: at capacity 4 the cycle is silent and the window
  holds the two, at capacity 2 the cycle emits.
\<close>

theorem emission_begins_at_capacity_witness:
  "0 \<le> sampleIntegration (session 4 1 0) \<and> 0 \<le> sampleIntegration (session 2 1 0) \<and>
   (\<exists>s' s''. interpretInput True [(1, 7), (1, 7)] (session 4 1 0) = Inr (s', None) \<and>
      length (data s') = 2 \<and>
      map_sum id fst (interpretInput True [(1, 7), (1, 7)] (session 2 1 0)) = Inr s'' \<and>
      length (data s'') = 2 \<and>
      map_sum id snd (interpretInput True [(1, 7), (1, 7)] (session 2 1 0)) \<noteq> Inr None)"
proof -
  let ?burst = "[(1, 7), (1, 7 :: quint32)] :: (quint32 \<times> quint32) list"
  have c4: "0 \<le> sampleIntegration (session 4 1 0)"
    by (simp add: session_simps sampleCount_def toInt_def)
  have c2: "0 \<le> sampleIntegration (session 2 1 0)"
    by (simp add: session_simps sampleCount_def toInt_def)
  from emission_begins_at_capacity [OF c4, of True ?burst] obtain s' ev where
    r1: "interpretInput True ?burst (session 4 1 0) = Inr (s', ev)" and
    g1: "(ev \<noteq> None) =
           (?burst \<noteq> [] \<and>
            sampleIntegration (session 4 1 0) \<le> int (length (data (session 4 1 0)) + length ?burst))"
    and
    n1: "ev = None \<longrightarrow> length (data s') = length (data (session 4 1 0)) + length ?burst"
    by blast
  have "\<not> (?burst \<noteq> [] \<and>
            sampleIntegration (session 4 1 0) \<le> int (length (data (session 4 1 0)) + length ?burst))"
    by (simp add: session_simps sampleCount_def toInt_def)
  with g1 have e1: "ev = None" by blast
  with n1 have l1: "length (data s') = 2" by (simp add: session_simps)
  from emission_begins_at_capacity [OF c2, of True ?burst] obtain s'' ev' where
    r2: "interpretInput True ?burst (session 2 1 0) = Inr (s'', ev')" and
    g2: "(ev' \<noteq> None) =
           (?burst \<noteq> [] \<and>
            sampleIntegration (session 2 1 0) \<le> int (length (data (session 2 1 0)) + length ?burst))"
    and
    n2: "ev' \<noteq> None \<longrightarrow> int (length (data s'')) = sampleIntegration (session 2 1 0)"
    by blast
  have "?burst \<noteq> [] \<and>
            sampleIntegration (session 2 1 0) \<le> int (length (data (session 2 1 0)) + length ?burst)"
    by (simp add: session_simps sampleCount_def toInt_def)
  with g2 have e2: "ev' \<noteq> None" by blast
  with n2 have l2: "length (data s'') = 2" by (simp add: session_simps sampleCount_def toInt_def)
  from r1 e1 have a: "interpretInput True ?burst (session 4 1 0) = Inr (s', None)" by simp
  from r2 have b: "map_sum id fst (interpretInput True ?burst (session 2 1 0)) = Inr s''" by simp
  from r2 e2 have c: "map_sum id snd (interpretInput True ?burst (session 2 1 0)) \<noteq> Inr None"
    by simp
  from c4 c2 a l1 b l2 c show ?thesis by blast
qed

text \<open>
  C8. A cycle on a capacity that is not negative returns. A cycle on an empty burst
  leaves the window as it was. After a cycle whose burst is not empty, and after any
  cycle that finds the window within its capacity, the window is within its capacity;
  and it is the old window followed by the samples of the burst, without as many of its
  first entries as exceed the capacity, the others in their order.
\<close>

theorem window_bounded_fifo:
  assumes cap0: "0 \<le> sampleIntegration s"
  shows "\<exists>s' ev new. interpretInput lockFree burst s = Inr (s', ev) \<and>
           sampleIntegration s' = sampleIntegration s \<and>
           length new = length burst \<and>
           (burst = [] \<longrightarrow> data s' = data s) \<and>
           (burst \<noteq> [] \<or> int (length (data s)) \<le> sampleIntegration s \<longrightarrow>
              int (length (data s')) \<le> sampleIntegration s \<and>
              data s' = drop (length (data s @ new) - nat (sampleIntegration s)) (data s @ new))"
proof -
  from interpretInput_total [OF cap0] obtain s' ev where
    run: "interpretInput lockFree burst s = Inr (s', ev)" by blast
  have cap1: "sampleIntegration s' = sampleIntegration s"
    using interpretInput_fields [OF run] by simp
  from interpretInput_window [OF run] obtain new where
    len: "length new = length burst" and
    c: "if burst = [] \<or> int (length (data s) + length burst) < sampleIntegration s
        then ev = None \<and> data s' = data s @ new
        else ev \<noteq> None \<and> 0 \<le> sampleIntegration s \<and>
              data s' = drop (length (data s) + length burst - nat (sampleIntegration s))
                          (data s @ new)"
    by blast
  have same: "burst = [] \<longrightarrow> data s' = data s"
  proof
    assume "burst = []"
    with c len show "data s' = data s" by simp
  qed
  have bound: "burst \<noteq> [] \<or> int (length (data s)) \<le> sampleIntegration s \<longrightarrow>
        int (length (data s')) \<le> sampleIntegration s \<and>
        data s' = drop (length (data s @ new) - nat (sampleIntegration s)) (data s @ new)"
  proof
    assume pre: "burst \<noteq> [] \<or> int (length (data s)) \<le> sampleIntegration s"
    show "int (length (data s')) \<le> sampleIntegration s \<and>
        data s' = drop (length (data s @ new) - nat (sampleIntegration s)) (data s @ new)"
    proof (cases "burst = [] \<or> int (length (data s) + length burst) < sampleIntegration s")
      case True
      with c have d: "data s' = data s @ new" by simp
      from True pre len have le: "int (length (data s @ new)) \<le> sampleIntegration s" by auto
      then have "length (data s @ new) - nat (sampleIntegration s) = 0" by simp
      with d le show ?thesis by simp
    next
      case False
      with c have
        d: "data s' = drop (length (data s) + length burst - nat (sampleIntegration s)) (data s @ new)"
        by simp
      from False have "sampleIntegration s \<le> int (length (data s) + length burst)" by simp
      with d cap0 len have "int (length (data s')) = sampleIntegration s" by simp
      with d len show ?thesis by simp
    qed
  qed
  from run cap1 len same bound show ?thesis by blast
qed

text \<open>Capacity 2 and a burst of three samples: the first one is dropped.\<close>

theorem window_bounded_fifo_witness:
  "0 \<le> sampleIntegration (session 2 1 0) \<and>
   (\<exists>s' ev. interpretInput True [(1, 7), (1, 7), (1, 7)] (session 2 1 0) = Inr (s', ev) \<and>
     length (data s') = 2 \<and> sampleIntegration s' = 2)"
proof -
  let ?burst = "[(1, 7), (1, 7), (1, 7 :: quint32)] :: (quint32 \<times> quint32) list"
  have cap0: "0 \<le> sampleIntegration (session 2 1 0)"
    by (simp add: session_simps sampleCount_def toInt_def)
  from window_bounded_fifo [OF cap0, of True ?burst] obtain s' ev new where
    run: "interpretInput True ?burst (session 2 1 0) = Inr (s', ev)" and
    cap: "sampleIntegration s' = sampleIntegration (session 2 1 0)" and
    len: "length new = length ?burst" and
    b: "?burst \<noteq> [] \<or> int (length (data (session 2 1 0))) \<le> sampleIntegration (session 2 1 0) \<longrightarrow>
          int (length (data s')) \<le> sampleIntegration (session 2 1 0) \<and>
          data s' = drop (length (data (session 2 1 0) @ new) - nat (sampleIntegration (session 2 1 0)))
                      (data (session 2 1 0) @ new)"
    by blast
  from b have
    d: "data s' = drop (length (data (session 2 1 0) @ new) - nat (sampleIntegration (session 2 1 0)))
                    (data (session 2 1 0) @ new)"
    by simp
  from d len have "length (data s') = 2" by (simp add: session_simps sampleCount_def toInt_def)
  moreover from cap have "sampleIntegration s' = 2"
    by (simp add: session_simps sampleCount_def toInt_def)
  ultimately show ?thesis using run cap0 by blast
qed

lemma filled_simps:
  "data filled = [(1 / 2, 1 / 2), (1 / 2, 1 / 2), (1 / 2, 1 / 2), (1 / 2, 1 / 2)]"
  "audioInput filled \<noteq> None"
proof -
  from cycles_example obtain s' where
    "cycles [(True, [(1, 7), (1, 7)]), (True, [(1, 7), (1, 7)])] (session 4 1 0) =
       Inr (s', [None, Some (1 / 2, NaN, NaN)])" and
    "data s' = [(1 / 2, 1 / 2), (1 / 2, 1 / 2), (1 / 2, 1 / 2), (1 / 2, 1 / 2)]" and
    "audioInput s' = audioInput (session 4 1 0)" by blast
  with session_simps(1) [of 4 1 0] show "data filled = [(1 / 2, 1 / 2), (1 / 2, 1 / 2), (1 / 2, 1 / 2), (1 / 2, 1 / 2)]"
    and "audioInput filled \<noteq> None"
    by (simp_all add: filled_def)
qed

lemma restart_simps:
  "start anyDevice (pcm32 4) (setIntegrationTime (1 / 2) (stop filled)) = (True, restarted)"
  "data restarted = [(1 / 2, 1 / 2), (1 / 2, 1 / 2), (1 / 2, 1 / 2), (1 / 2, 1 / 2)]"
  "sampleIntegration restarted = 2"
  using filled_simps
  by (auto simp: restarted_def start_def stop_def setIntegrationTime_def pcm32_def anyDevice_def
      isFormatSupported_def sampleCount_def toInt_def)

text \<open>
  C8, as stated, fails. \<open>start\<close> and \<open>stop\<close> do not clear the window: the object that
  filled a window of four samples, stopped, set to half a second and started again, has
  the capacity 2, and its cycle on an empty burst returns before the loop that removes
  the excess, with the four samples in the window.
\<close>

theorem restarted_window_exceeds_counterexample:
  "map_sum id (length \<circ> data \<circ> fst)
     (cycles [(True, [(1, 7), (1, 7)]), (True, [(1, 7), (1, 7)])] (session 4 1 0)) = Inr 4 \<and>
   fst (start anyDevice (pcm32 4) (setIntegrationTime (1 / 2) (stop filled))) \<and>
   map_sum id (length \<circ> data \<circ> fst) (interpretInput True [] restarted) = Inr 4 \<and>
   map_sum id (sampleIntegration \<circ> fst) (interpretInput True [] restarted) = Inr 2"
proof -
  from cycles_example obtain s' where
    "cycles [(True, [(1, 7), (1, 7)]), (True, [(1, 7), (1, 7)])] (session 4 1 0) =
       Inr (s', [None, Some (1 / 2, NaN, NaN)])" and
    "data s' = [(1 / 2, 1 / 2), (1 / 2, 1 / 2), (1 / 2, 1 / 2), (1 / 2, 1 / 2)]" by blast
  then have "map_sum id (length \<circ> data \<circ> fst)
     (cycles [(True, [(1, 7), (1, 7)]), (True, [(1, 7), (1, 7)])] (session 4 1 0)) = Inr 4"
    by simp
  then show ?thesis by (simp add: restart_simps interpretInput_Nil qDebug_def)
qed

lemma vumeterLoop_eq:
  "vumeterLoop cap xs acc =
     (if int (length acc) \<ge> cap then acc
      else rev (take (nat cap - length acc)
                  (map (\<lambda>(left, sc). (left, fst sc)) (filter (\<lambda>(left, sc). fst sc \<noteq> 2) xs))) @ acc)"
proof (induction cap xs acc rule: vumeterLoop.induct)
  case (1 cap acc)
  show ?case by simp
next
  case (2 cap left sc rest acc)
  show ?case
  proof (cases "int (length acc) \<ge> cap")
    case True
    then show ?thesis by simp
  next
    case False
    then have pos: "nat cap - length acc = Suc (nat cap - Suc (length acc))" by linarith
    show ?thesis
    proof (cases "fst sc \<noteq> 2")
      case True
      with False 2(1) pos show ?thesis by (auto simp: not_le)
    next
      case nv: False
      with False 2(2) show ?thesis by simp
    qed
  qed
qed

lemma vumeterLoop_mostRecentValid:
  assumes "\<forall>p\<in>set chopperSinCos. p = ignoreValue \<or> fst p \<noteq> 2"
  shows "vumeterLoop cap (rev (zip leftSignal chopperSinCos)) [] =
         mostRecentValid cap leftSignal chopperSinCos"
proof -
  have f: "filter (\<lambda>(left, sc). fst sc \<noteq> 2) (zip leftSignal chopperSinCos) =
           filter (\<lambda>(left, sc). sc \<noteq> ignoreValue) (zip leftSignal chopperSinCos)"
  proof (rule filter_cong [OF refl])
    fix z assume "z \<in> set (zip leftSignal chopperSinCos)"
    moreover obtain a b where z: "z = (a, b)" by (cases z)
    ultimately have "b \<in> set chopperSinCos" by (auto dest: set_zip_rightD)
    with z have "snd z \<in> set chopperSinCos" by simp
    with assms have "snd z = ignoreValue \<or> fst (snd z) \<noteq> 2" by blast
    then show "(case z of (left, sc) \<Rightarrow> fst sc \<noteq> 2) = (case z of (left, sc) \<Rightarrow> sc \<noteq> ignoreValue)"
      by (cases z) (auto simp: ignoreValue_def)
  qed
  show ?thesis
    by (simp add: vumeterLoop_eq mostRecentValid_def Let_def rev_filter [symmetric] rev_map [symmetric]
        rev_take f)
qed

text \<open>
  C9. When \<open>tryLock\<close> succeeds on a burst that is not empty, the cycle returns (its
  capacity not being negative) and the snapshot after it is the list of (measurement,
  sine) pairs of the burst's samples that the analyzer did not mark, in the order of the
  burst, cut to the last \<open>_sampleVumeter\<close> of them. The snapshot before the cycle does
  not enter. \<open>start\<close> sets \<open>_sampleVumeter\<close> from the sample rate and the monitor
  time.
\<close>

theorem vumeterData_most_recent_valid:
  assumes "burst \<noteq> []" and "0 \<le> sampleIntegration s"
  shows "\<exists>s' ev chopperSinCos.
           interpretInput True burst s = Inr (s', ev) \<and>
           parseChopperSignal (map snd burst) (avgRight (map snd burst)) (phase s) = Inr chopperSinCos \<and>
           length chopperSinCos = length burst \<and>
           vumeterData s' =
             mostRecentValid (sampleVumeter s) (map (\<lambda>p. real (unat (fst p))) burst) chopperSinCos"
proof -
  from interpretInput_total [OF assms(2)] obtain s' ev where
    run: "interpretInput True burst s = Inr (s', ev)" by blast
  from interpretInput_nonempty [OF assms(1), of s True] run obtain csc where
    csc: "parseChopperSignal (map snd burst) (avgRight (map snd burst)) (phase s) = Inr csc" and
    len: "length csc = length burst" and
    eq: "integrate True (zip (map (\<lambda>p. real (unat (fst p))) burst) csc)
           (s\<lparr>timeValue := timeValue s + outputPeriod s\<rparr>) = Inr (s', ev)"
    by auto
  from integrate_vumeter [OF eq] have
    "vumeterData s' = vumeterLoop (sampleVumeter s) (rev (zip (map (\<lambda>p. real (unat (fst p))) burst) csc)) []"
    by simp
  with vumeterLoop_mostRecentValid [OF parseChopperSignal_entries [OF csc]] have
    "vumeterData s' = mostRecentValid (sampleVumeter s) (map (\<lambda>p. real (unat (fst p))) burst) csc"
    by simp
  with run csc len show ?thesis by blast
qed

text \<open>
  At 50 Hz the snapshot holds one sample: of the two valid samples of the burst, the
  last.
\<close>

theorem vumeterData_most_recent_valid_witness:
  "[(3, 0), (4, 10), (5, 0), (6, 10 :: quint32)] \<noteq> ([] :: (quint32 \<times> quint32) list) \<and>
   0 \<le> sampleIntegration (session 50 1 0) \<and>
   (\<exists>s' ev. interpretInput True [(3, 0), (4, 10), (5, 0), (6, 10)] (session 50 1 0) = Inr (s', ev) \<and>
      vumeterData s' = [(6, fst (sinCos 0 2 1))])"
proof -
  let ?burst = "[(3, 0), (4, 10), (5, 0), (6, 10 :: quint32)] :: (quint32 \<times> quint32) list"
  have ne: "?burst \<noteq> []" by simp
  have cap0: "0 \<le> sampleIntegration (session 50 1 0)"
    by (simp add: session_simps sampleCount_def toInt_def)
  from vumeterData_most_recent_valid [OF ne cap0] obtain s' ev csc where
    run: "interpretInput True ?burst (session 50 1 0) = Inr (s', ev)" and
    csc: "parseChopperSignal (map snd ?burst) (avgRight (map snd ?burst)) (phase (session 50 1 0)) =
            Inr csc" and
    v: "vumeterData s' =
          mostRecentValid (sampleVumeter (session 50 1 0)) (map (\<lambda>p. real (unat (fst p))) ?burst) csc"
    by blast
  from csc have "csc = [ignoreValue, ignoreValue, sinCos 0 2 0, sinCos 0 2 1]"
    by (simp add: avg_0_10 parse_0_10 session_simps)
  with v have "vumeterData s' = [(6, fst (sinCos 0 2 1))]"
    by (simp add: mostRecentValid_def session_simps sampleCount_def toInt_def)
  with run ne cap0 show ?thesis by blast
qed

lemma demodulate_half: "demodulate (2 ^ 26, (1 / 2 ^ 27, 1)) = (1 / 2, 2 ^ 26)"
  by (simp add: demodulate_def)

text \<open>
  C10. The averaging loop passes over every stored sample of which the \<open>x\<close> is one
  half or the \<open>y\<close> is one half: with or without such a sample the sums and the count
  are the same. A sample that the analyzer marked is stored as one half twice. And there
  is a valid sample of which the product is one half: for the measurement \<open>2^26\<close> and
  the pair \<open>(2^-27, 1)\<close>, which is not the ignore pair, the Demodulator stores the
  products \<open>(1/2, 2^26)\<close>, and the loop passes over that sample. (The pair is the sine
  and cosine that the doubles give at the angle \<open>2^-27\<close>.)
\<close>

theorem half_component_excluded:
  assumes "fst d = 1 / 2 \<or> snd d = 1 / 2"
  shows "sumData (pre @ d # post) acc = sumData (pre @ post) acc \<and>
         demodulate (left, ignoreValue) = (1 / 2, 1 / 2) \<and>
         (1 / 2 ^ 27, 1) \<noteq> ignoreValue \<and>
         demodulate (2 ^ 26, (1 / 2 ^ 27, 1)) = (1 / 2 ^ 27 * 2 ^ 26, 1 * 2 ^ 26) \<and>
         demodulate (2 ^ 26, (1 / 2 ^ 27, 1)) = (1 / 2, 2 ^ 26) \<and>
         sumData (pre @ demodulate (2 ^ 26, (1 / 2 ^ 27, 1)) # post) acc = sumData (pre @ post) acc"
proof -
  have "sumData (pre @ demodulate (2 ^ 26, (1 / 2 ^ 27, 1)) # post) acc = sumData (pre @ post) acc"
    by (rule sumData_skip) (simp add: demodulate_def)
  moreover have "demodulate (left, ignoreValue) = (1 / 2, 1 / 2)"
    by (simp add: demodulate_def ignoreValue_def)
  moreover have "((1 / 2 ^ 27, 1) :: qpair) \<noteq> ignoreValue"
    by (simp add: ignoreValue_def)
  moreover have "demodulate (2 ^ 26, (1 / 2 ^ 27, 1)) = (1 / 2 ^ 27 * 2 ^ 26, 1 * 2 ^ 26)"
    by (simp add: demodulate_def)
  ultimately show ?thesis using sumData_skip [OF assms] demodulate_half by blast
qed

text \<open>A window of three samples, the middle one with \<open>x\<close> one half.\<close>

theorem half_component_excluded_witness:
  "(fst (1 / 2 :: real, 7 :: real) = 1 / 2 \<or> snd (1 / 2 :: real, 7 :: real) = 1 / 2) \<and>
   sumData ([(1, 2)] @ (1 / 2, 7) # [(3, 4)]) (0, 0, 0) = (4, 6, 2)"
proof -
  have h: "fst (1 / 2 :: real, 7 :: real) = 1 / 2 \<or> snd (1 / 2 :: real, 7 :: real) = 1 / 2" by simp
  from half_component_excluded [OF h, of "[(1, 2)]" "[(3, 4)]" "(0, 0, 0)"] h show ?thesis by simp
qed

text \<open>
  C5. The claim has the emitted mean equal to the mean of the valid samples for every
  value they take. Take a window of two valid samples: the one with the measurement
  \<open>2^26\<close> and the pair \<open>(2^-27, 1)\<close>, stored by the Demodulator as \<open>(1/2, 2^26)\<close>, and
  one stored as \<open>(0, 0)\<close>. The mean of the valid samples is \<open>(1/4, 2^25)\<close>. The test of
  the averaging loop rejects the first sample, because its \<open>x\<close> is one half, and the
  loop and the two divisions give the mean \<open>(0, 0)\<close>.
\<close>

theorem mean_omits_valid_sample:
  "demodulate (2 ^ 26, (1 / 2 ^ 27, 1)) = (1 / 2, 2 ^ 26) \<and>
   sumData [(1 / 2, 2 ^ 26), (0, 0)] (0, 0, 0) = (0, 0, 1) \<and>
   (case sumData [(1 / 2, 2 ^ 26), (0, 0)] (0, 0, 0) of
      (x, y, dataCount) \<Rightarrow> (qdiv x dataCount, qdiv y dataCount)) = (Num 0, Num 0) \<and>
   validMean [(1 / 2, 2 ^ 26, True), (0, 0, True)] = (Num (1 / 4), Num (2 ^ 25))"
  by (simp add: demodulate_def qdiv_def validMean_def)

end
